theory Spec2Isabelle
  imports Complex_Main "HOL-Library.AList" "HOL-Library.Multiset"
begin

section \<open>Go maps\<close>

text \<open>
  A Go map is modelled as an association list with \<^const>\<open>map_of\<close> as lookup,
  \<^const>\<open>AList.update\<close> as assignment and \<^const>\<open>AList.delete\<close> as
  \<^verbatim>\<open>delete\<close>. A \<^verbatim>\<open>range\<close> loop over the map visits the
  list in its order. Go leaves that order unspecified; the theorems below hold for every
  list. Where the outcome of a loop depends on the entry it meets first (the lookups of
  the override pass of dead-code detection), the choice is a parameter of the model.

  The graph keeps maps of maps (\<^verbatim>\<open>byRelType\<close>, \<^verbatim>\<open>outgoing\<close>,
  \<^verbatim>\<open>incoming\<close>). The inner map is a reference, so writing into it changes
  the entry of the outer map in place.
\<close>

type_synonym ('k, 'v) gomap = "('k \<times> 'v) list"

definition lookup2 :: "('a, ('b, 'v) gomap) gomap \<Rightarrow> 'a \<Rightarrow> 'b \<Rightarrow> 'v option" where
  "lookup2 mm a b = (case map_of mm a of None \<Rightarrow> None | Some m \<Rightarrow> map_of m b)"

text \<open>\<^verbatim>\<open>delete(mm[a], b)\<close>: a no-op when \<^verbatim>\<open>mm[a]\<close> is the nil map.\<close>

definition delete_in :: "'a \<Rightarrow> 'b \<Rightarrow> ('a, ('b, 'v) gomap) gomap \<Rightarrow> ('a, ('b, 'v) gomap) gomap" where
  "delete_in a b mm =
     (case map_of mm a of
        None \<Rightarrow> mm
      | Some m \<Rightarrow> AList.update a (AList.delete b m) mm)"

text \<open>
  \<^verbatim>\<open>if mm[a] == nil { mm[a] = make(...) }; mm[a][b] = v\<close>
\<close>

definition store_in :: "'a \<Rightarrow> 'b \<Rightarrow> 'v \<Rightarrow> ('a, ('b, 'v) gomap) gomap \<Rightarrow> ('a, ('b, 'v) gomap) gomap" where
  "store_in a b v mm =
     (case map_of mm a of
        None \<Rightarrow> AList.update a [(b, v)] mm
      | Some m \<Rightarrow> AList.update a (AList.update b v m) mm)"

section \<open>The graph model (package graph)\<close>

type_synonym NodeLabel = string
type_synonym RelType = string

definition NodeFile :: NodeLabel where "NodeFile = ''file''"
definition NodeFolder :: NodeLabel where "NodeFolder = ''folder''"
definition NodeFunction :: NodeLabel where "NodeFunction = ''function''"
definition NodeClass :: NodeLabel where "NodeClass = ''class''"
definition NodeMethod :: NodeLabel where "NodeMethod = ''method''"
definition NodeInterface :: NodeLabel where "NodeInterface = ''interface''"
definition NodeTypeAlias :: NodeLabel where "NodeTypeAlias = ''type_alias''"
definition NodeEnum :: NodeLabel where "NodeEnum = ''enum''"
definition NodeCommunity :: NodeLabel where "NodeCommunity = ''community''"
definition NodeProcess :: NodeLabel where "NodeProcess = ''process''"

definition RelContains :: RelType where "RelContains = ''contains''"
definition RelDefines :: RelType where "RelDefines = ''defines''"
definition RelCalls :: RelType where "RelCalls = ''calls''"
definition RelImports :: RelType where "RelImports = ''imports''"
definition RelExtends :: RelType where "RelExtends = ''extends''"
definition RelImplements :: RelType where "RelImplements = ''implements''"
definition RelMemberOf :: RelType where "RelMemberOf = ''member_of''"
definition RelStepInProcess :: RelType where "RelStepInProcess = ''step_in_process''"
definition RelUsesType :: RelType where "RelUsesType = ''uses_type''"
definition RelExports :: RelType where "RelExports = ''exports''"
definition RelCoupledWith :: RelType where "RelCoupledWith = ''coupled_with''"

text \<open>
  A value of Go's \<^verbatim>\<open>any\<close> as the properties hold it: the code only ever
  type-asserts to \<^verbatim>\<open>bool\<close> and \<^verbatim>\<open>string\<close>.
\<close>

datatype anyval = VBool bool | VString string | VOther

text \<open>
  \<^verbatim>\<open>Properties map[string]any\<close> is never ranged over, so it is a partial
  function; the nil map is the empty one (reading a nil map is legal in Go and the code
  allocates before every write).
\<close>

record GraphNode =
  ID :: string
  Label :: NodeLabel
  Name :: string
  FilePath :: string
  StartLine :: int
  EndLine :: int
  Content :: string
  Signature :: string
  Language :: string
  ClassName :: string
  IsDead :: bool
  IsEntryPoint :: bool
  IsExported :: bool
  Decorators :: "string list"
  Properties :: "string \<rightharpoonup> anyval"

record GraphRelationship =
  RID :: string
  Type :: RelType
  Source :: string
  Target :: string
  RProperties :: "string \<rightharpoonup> anyval"

text \<open>
  \<^verbatim>\<open>KnowledgeGraph\<close>. The maps hold pointers; the pointer stored under a
  node ID in \<^verbatim>\<open>byLabel\<close> is the one stored in \<^verbatim>\<open>nodes\<close>,
  so \<open>byLabel\<close> keeps the IDs and the node itself lives in \<open>nodes\<close> only.
  Relationships are never written through their pointers, so the indexes hold their values.
  The mutex is left out: every operation runs under it from start to end.
\<close>

record KnowledgeGraph =
  nodes :: "(string, GraphNode) gomap"
  relationships :: "(string, GraphRelationship) gomap"
  byLabel :: "(NodeLabel, (string, unit) gomap) gomap"
  byRelType :: "(RelType, (string, GraphRelationship) gomap) gomap"
  outgoing :: "(string, (string, GraphRelationship) gomap) gomap"
  incoming :: "(string, (string, GraphRelationship) gomap) gomap"

definition NewKnowledgeGraph :: KnowledgeGraph where
  "NewKnowledgeGraph =
     \<lparr>nodes = [], relationships = [], byLabel = [], byRelType = [],
      outgoing = [], incoming = []\<rparr>"

definition AddNode :: "KnowledgeGraph \<Rightarrow> GraphNode \<Rightarrow> KnowledgeGraph" where
  "AddNode g node =
     (let bl = (case map_of (nodes g) (ID node) of
                  Some old \<Rightarrow>
                    if Label old \<noteq> Label node then delete_in (Label old) (ID node) (byLabel g)
                    else byLabel g
                | None \<Rightarrow> byLabel g)
      in g\<lparr>nodes := AList.update (ID node) node (nodes g),
            byLabel := store_in (Label node) (ID node) () bl\<rparr>)"

definition GetNode :: "KnowledgeGraph \<Rightarrow> string \<Rightarrow> GraphNode option" where
  "GetNode g nodeID = map_of (nodes g) nodeID"

text \<open>One round of the loops of \<^verbatim>\<open>cascadeRelationshipsForNode\<close>.\<close>

definition cascade_out_step :: "string \<times> GraphRelationship \<Rightarrow> KnowledgeGraph \<Rightarrow> KnowledgeGraph" where
  "cascade_out_step kr g =
     (let rel = snd kr in
      g\<lparr>relationships := AList.delete (RID rel) (relationships g),
        byRelType := delete_in (Type rel) (RID rel) (byRelType g),
        incoming := delete_in (Target rel) (RID rel) (incoming g)\<rparr>)"

definition cascade_in_step :: "string \<times> GraphRelationship \<Rightarrow> KnowledgeGraph \<Rightarrow> KnowledgeGraph" where
  "cascade_in_step kr g =
     (let rel = snd kr in
      g\<lparr>relationships := AList.delete (RID rel) (relationships g),
        byRelType := delete_in (Type rel) (RID rel) (byRelType g),
        outgoing := delete_in (Source rel) (RID rel) (outgoing g)\<rparr>)"

definition cascadeRelationshipsForNode :: "KnowledgeGraph \<Rightarrow> string \<Rightarrow> KnowledgeGraph" where
  "cascadeRelationshipsForNode g nodeID =
     (let g1 = (case map_of (outgoing g) nodeID of
                  Some outRels \<Rightarrow>
                    (let g' = fold cascade_out_step outRels g
                     in g'\<lparr>outgoing := AList.delete nodeID (outgoing g')\<rparr>)
                | None \<Rightarrow> g)
      in (case map_of (incoming g1) nodeID of
            Some inRels \<Rightarrow>
              (let g' = fold cascade_in_step inRels g1
               in g'\<lparr>incoming := AList.delete nodeID (incoming g')\<rparr>)
          | None \<Rightarrow> g1))"

definition RemoveNode :: "KnowledgeGraph \<Rightarrow> string \<Rightarrow> KnowledgeGraph \<times> bool" where
  "RemoveNode g nodeID =
     (case map_of (nodes g) nodeID of
        None \<Rightarrow> (g, False)
      | Some node \<Rightarrow>
          (cascadeRelationshipsForNode
             (g\<lparr>nodes := AList.delete nodeID (nodes g),
                byLabel := delete_in (Label node) nodeID (byLabel g)\<rparr>) nodeID,
           True))"

definition RemoveNodesByFile :: "KnowledgeGraph \<Rightarrow> string \<Rightarrow> KnowledgeGraph \<times> int" where
  "RemoveNodesByFile g filePath =
     (let idsToRemove = map fst (filter (\<lambda>(k, node). FilePath node = filePath) (nodes g))
      in if length idsToRemove = 0 then (g, 0)
         else
           (let g1 = fold (\<lambda>k h.
                       (case map_of (nodes h) k of
                          None \<Rightarrow> h
                        | Some node \<Rightarrow>
                            h\<lparr>nodes := AList.delete k (nodes h),
                              byLabel := delete_in (Label node) k (byLabel h)\<rparr>))
                     idsToRemove g;
                g2 = fold (\<lambda>k h. cascadeRelationshipsForNode h k) idsToRemove g1
            in (g2, int (length idsToRemove))))"

definition AddRelationship :: "KnowledgeGraph \<Rightarrow> GraphRelationship \<Rightarrow> KnowledgeGraph" where
  "AddRelationship g rel =
     (let g1 = (case map_of (relationships g) (RID rel) of
                  Some old \<Rightarrow>
                    g\<lparr>byRelType := delete_in (Type old) (RID rel) (byRelType g),
                      outgoing := delete_in (Source old) (RID rel) (outgoing g),
                      incoming := delete_in (Target old) (RID rel) (incoming g)\<rparr>
                | None \<Rightarrow> g)
      in g1\<lparr>relationships := AList.update (RID rel) rel (relationships g1),
            byRelType := store_in (Type rel) (RID rel) rel (byRelType g1),
            outgoing := store_in (Source rel) (RID rel) rel (outgoing g1),
            incoming := store_in (Target rel) (RID rel) rel (incoming g1)\<rparr>)"

text \<open>
  \<^verbatim>\<open>GetOutgoing(nodeID, relType ...RelType)\<close>: the variadic argument is a list.
\<close>

definition GetOutgoing :: "KnowledgeGraph \<Rightarrow> string \<Rightarrow> RelType list \<Rightarrow> GraphRelationship list" where
  "GetOutgoing g nodeID relType =
     (case map_of (outgoing g) nodeID of
        None \<Rightarrow> []
      | Some rels \<Rightarrow>
          if length relType > 0 \<and> hd relType \<noteq> ''''
          then filter (\<lambda>rel. Type rel = hd relType) (map snd rels)
          else map snd rels)"

definition GetIncoming :: "KnowledgeGraph \<Rightarrow> string \<Rightarrow> RelType list \<Rightarrow> GraphRelationship list" where
  "GetIncoming g nodeID relType =
     (case map_of (incoming g) nodeID of
        None \<Rightarrow> []
      | Some rels \<Rightarrow>
          if length relType > 0 \<and> hd relType \<noteq> ''''
          then filter (\<lambda>rel. Type rel = hd relType) (map snd rels)
          else map snd rels)"

definition HasIncoming :: "KnowledgeGraph \<Rightarrow> string \<Rightarrow> RelType \<Rightarrow> bool" where
  "HasIncoming g nodeID relType =
     (case map_of (incoming g) nodeID of
        None \<Rightarrow> False
      | Some rels \<Rightarrow> list_ex (\<lambda>rel. Type rel = relType) (map snd rels))"

text \<open>\<^verbatim>\<open>IterNodes\<close>: the snapshot of the node pointers, as the keys they live under.\<close>

definition IterNodes :: "KnowledgeGraph \<Rightarrow> string list" where
  "IterNodes g = map fst (nodes g)"

subsection \<open>Index coherence and the states the API can reach\<close>

text \<open>
  The secondary indexes are coherent when each of them is exactly the projection of the
  primary relationship map: \<open>outgoing\<close> by source, \<open>incoming\<close> by target,
  \<open>byRelType\<close> by type, every relationship stored under its own ID, and no key
  twice in any map (a Go map has each key once).
\<close>

definition filt :: "('v \<Rightarrow> bool) \<Rightarrow> 'v option \<Rightarrow> 'v option" where
  "filt P x = (case x of None \<Rightarrow> None | Some r \<Rightarrow> if P r then Some r else None)"

definition inner_distinct :: "('a, ('b, 'v) gomap) gomap \<Rightarrow> bool" where
  "inner_distinct mm = (distinct (map fst mm) \<and> (\<forall>m \<in> snd ` set mm. distinct (map fst m)))"

definition index_consistent :: "KnowledgeGraph \<Rightarrow> bool" where
  "index_consistent g =
     (distinct (map fst (relationships g)) \<and>
      inner_distinct (outgoing g) \<and> inner_distinct (incoming g) \<and> inner_distinct (byRelType g) \<and>
      (\<forall>rid r. map_of (relationships g) rid = Some r \<longrightarrow> RID r = rid) \<and>
      (\<forall>s rid. lookup2 (outgoing g) s rid = filt (\<lambda>r. Source r = s) (map_of (relationships g) rid)) \<and>
      (\<forall>t rid. lookup2 (incoming g) t rid = filt (\<lambda>r. Target r = t) (map_of (relationships g) rid)) \<and>
      (\<forall>ty rid. lookup2 (byRelType g) ty rid = filt (\<lambda>r. Type r = ty) (map_of (relationships g) rid)))"

text \<open>The two halves of \<^const>\<open>cascadeRelationshipsForNode\<close>, named for the proofs.\<close>

definition cascade_out_half :: "KnowledgeGraph \<Rightarrow> string \<Rightarrow> KnowledgeGraph" where
  "cascade_out_half g nodeID =
     (case map_of (outgoing g) nodeID of
        Some outRels \<Rightarrow>
          (let g' = fold cascade_out_step outRels g
           in g'\<lparr>outgoing := AList.delete nodeID (outgoing g')\<rparr>)
      | None \<Rightarrow> g)"

definition cascade_in_half :: "KnowledgeGraph \<Rightarrow> string \<Rightarrow> KnowledgeGraph" where
  "cascade_in_half g nodeID =
     (case map_of (incoming g) nodeID of
        Some inRels \<Rightarrow>
          (let g' = fold cascade_in_step inRels g
           in g'\<lparr>incoming := AList.delete nodeID (incoming g')\<rparr>)
      | None \<Rightarrow> g)"

text \<open>
  The graph states a caller can build: from the empty graph, by the mutating operations
  of the API.
\<close>

inductive reachable :: "KnowledgeGraph \<Rightarrow> bool" where
  reach_New: "reachable NewKnowledgeGraph"
| reach_AddNode: "reachable g \<Longrightarrow> reachable (AddNode g node)"
| reach_AddRelationship: "reachable g \<Longrightarrow> reachable (AddRelationship g rel)"
| reach_RemoveNode: "reachable g \<Longrightarrow> reachable (fst (RemoveNode g nodeID))"
| reach_RemoveNodesByFile: "reachable g \<Longrightarrow> reachable (fst (RemoveNodesByFile g filePath))"

text \<open>
  A relationship that has \<open>v\<close> as source or target is held somewhere in the graph:
  in the primary map, the type index or an adjacency index.
\<close>

definition mentions :: "string \<Rightarrow> GraphRelationship \<Rightarrow> bool" where
  "mentions v r = (Source r = v \<or> Target r = v)"

definition index_mentions :: "string \<Rightarrow> ('a, (string, GraphRelationship) gomap) gomap \<Rightarrow> bool" where
  "index_mentions v mm = (\<exists>m \<in> snd ` set mm. \<exists>r \<in> snd ` set m. mentions v r)"

definition graph_mentions :: "string \<Rightarrow> KnowledgeGraph \<Rightarrow> bool" where
  "graph_mentions v g =
     ((\<exists>r \<in> snd ` set (relationships g). mentions v r) \<or>
      index_mentions v (byRelType g) \<or> index_mentions v (outgoing g) \<or>
      index_mentions v (incoming g))"

subsection \<open>Test graphs\<close>

text \<open>
  Nodes and relationships as the test suite writes them: the fields not given are Go's
  zero values.
\<close>

definition mkNode :: "string \<Rightarrow> NodeLabel \<Rightarrow> string \<Rightarrow> string \<Rightarrow> GraphNode" where
  "mkNode i l n f =
     \<lparr>ID = i, Label = l, Name = n, FilePath = f, StartLine = 0, EndLine = 0, Content = [],
      Signature = [], Language = [], ClassName = [], IsDead = False, IsEntryPoint = False,
      IsExported = False, Decorators = [], Properties = Map.empty\<rparr>"

definition mkRel :: "string \<Rightarrow> RelType \<Rightarrow> string \<Rightarrow> string \<Rightarrow> GraphRelationship" where
  "mkRel i t s d = \<lparr>RID = i, Type = t, Source = s, Target = d, RProperties = Map.empty\<rparr>"

definition dangling_graph :: KnowledgeGraph where
  "dangling_graph = AddRelationship NewKnowledgeGraph (mkRel ''rel1'' RelCalls ''node1'' ''node2'')"

definition two_node_graph :: KnowledgeGraph where
  "two_node_graph =
     AddRelationship
       (AddNode (AddNode NewKnowledgeGraph
          (mkNode ''function:a.py:foo'' NodeFunction ''foo'' ''a.py''))
          (mkNode ''function:b.py:bar'' NodeFunction ''bar'' ''b.py''))
       (mkRel ''rel1'' RelCalls ''function:a.py:foo'' ''function:b.py:bar'')"

section \<open>Dead-code detection (package ingestion)\<close>

subsection \<open>Go's strings package, on bytes\<close>

fun HasPrefix :: "string \<Rightarrow> string \<Rightarrow> bool" where
  "HasPrefix s [] = True"
| "HasPrefix [] (p # ps) = False"
| "HasPrefix (c # s) (p # ps) = (c = p \<and> HasPrefix s ps)"

definition HasSuffix :: "string \<Rightarrow> string \<Rightarrow> bool" where
  "HasSuffix s suffix = HasPrefix (rev s) (rev suffix)"

fun Contains :: "string \<Rightarrow> string \<Rightarrow> bool" where
  "Contains [] substr = HasPrefix [] substr"
| "Contains (c # s) substr = (HasPrefix (c # s) substr \<or> Contains s substr)"

subsection \<open>Writing through a node pointer\<close>

text \<open>
  The passes hold pointers to the nodes of the graph (from \<^verbatim>\<open>IterNodes\<close> and
  \<^verbatim>\<open>GetNode\<close>) and assign to their fields. A pointer is the key the node is
  stored under; assigning through it rewrites the node in place.
\<close>

definition modifyNode :: "string \<Rightarrow> (GraphNode \<Rightarrow> GraphNode) \<Rightarrow> KnowledgeGraph \<Rightarrow> KnowledgeGraph" where
  "modifyNode k f g = g\<lparr>nodes := AList.map_entry k f (nodes g)\<rparr>"

text \<open>
  \<^verbatim>\<open>for node := range g.IterNodes() { body }\<close>: the body runs once for each
  pointer of the snapshot and sees the fields as they are at that moment.
\<close>

definition forNodes :: "KnowledgeGraph \<Rightarrow> (string \<Rightarrow> GraphNode \<Rightarrow> KnowledgeGraph \<Rightarrow> KnowledgeGraph) \<Rightarrow> KnowledgeGraph" where
  "forNodes g body =
     fold (\<lambda>k h. case map_of (nodes h) k of None \<Rightarrow> h | Some node \<Rightarrow> body k node h)
       (IterNodes g) g"

text \<open>
  \<^verbatim>\<open>if n.Properties == nil { n.Properties = make(...) }; n.Properties[key] = v\<close>
\<close>

definition setProperty :: "string \<Rightarrow> anyval \<Rightarrow> GraphNode \<Rightarrow> GraphNode" where
  "setProperty key v n = n\<lparr>Properties := (Properties n)(key \<mapsto> v)\<rparr>"

subsection \<open>Pass 2: flagUnreachable\<close>

definition flagUnreachable :: "KnowledgeGraph \<Rightarrow> KnowledgeGraph" where
  "flagUnreachable g =
     forNodes g (\<lambda>k node h.
       if Label node = NodeFile \<or> Label node = NodeFolder then h
       else if Label node = NodeCommunity \<or> Label node = NodeProcess then h
       else
         (let hasIncomingCalls = HasIncoming h (ID node) RelCalls
          in if \<not> hasIncomingCalls then modifyNode k (\<lambda>n. n\<lparr>IsDead := True\<rparr>) h else h))"

subsection \<open>Pass 4: applyExemptions\<close>

definition isTestFunction :: "GraphNode \<Rightarrow> bool" where
  "isTestFunction node =
     (if HasSuffix (FilePath node) ''_test.go'' \<or> HasSuffix (FilePath node) ''_test.py'' then True
      else if Label node = NodeFunction \<and>
              (HasPrefix (Name node) ''Test'' \<or> HasPrefix (Name node) ''test_'') then True
      else False)"

definition dunderMethods :: "string list" where
  "dunderMethods =
     [''__init__'', ''__new__'', ''__del__'',
      ''__repr__'', ''__str__'',
      ''__lt__'', ''__le__'', ''__eq__'', ''__ne__'', ''__gt__'', ''__ge__'',
      ''__hash__'',
      ''__bool__'', ''__len__'']"

definition isDunderMethod :: "GraphNode \<Rightarrow> bool" where
  "isDunderMethod node =
     (if HasPrefix (Name node) ''__'' \<and> HasSuffix (Name node) ''__'' then True
      else list_ex (\<lambda>method. Name node = method) dunderMethods)"

definition isConstructor :: "GraphNode \<Rightarrow> bool" where
  "isConstructor node =
     (if Label node \<noteq> NodeMethod then False
      else if Name node = ''New'' @ ClassName node then True
      else if Name node = ''__init__'' then True
      else False)"

definition isDeadCodeExempt :: "GraphNode \<Rightarrow> bool" where
  "isDeadCodeExempt node =
     (if IsEntryPoint node then True
      else if IsExported node then True
      else if isTestFunction node then True
      else if isDunderMethod node then True
      else if isConstructor node then True
      else if Label node = NodeCommunity \<or> Label node = NodeProcess then True
      else False)"

definition applyExemptions :: "KnowledgeGraph \<Rightarrow> KnowledgeGraph" where
  "applyExemptions g =
     forNodes g (\<lambda>k node h.
       if \<not> IsDead node then h
       else if isDeadCodeExempt node then modifyNode k (\<lambda>n. n\<lparr>IsDead := False\<rparr>) h
       else h)"

subsection \<open>Pass 6: applyOverridePass\<close>

text \<open>
  \<^verbatim>\<open>findClassByName\<close> and \<^verbatim>\<open>findMethodInClass\<close> range over the
  nodes and return the first match. Go ranges over a map in an order that is unspecified
  and new for each loop, so the first match is any one of the matching nodes, and two
  calls need not agree. The decision is a parameter of the model: each call receives a
  number, which selects among the matching nodes.
\<close>

definition pick :: "nat \<Rightarrow> 'a list \<Rightarrow> 'a option" where
  "pick n xs = (if xs = [] then None else Some (xs ! (n mod length xs)))"

text \<open>The class nodes of a name, and the method nodes of a class name and a method name.\<close>

definition classesNamed :: "KnowledgeGraph \<Rightarrow> string \<Rightarrow> GraphNode list" where
  "classesNamed g className =
     map snd (filter (\<lambda>(k, node). Label node = NodeClass \<and> Name node = className) (nodes g))"

definition methodsNamed :: "KnowledgeGraph \<Rightarrow> string \<Rightarrow> string \<Rightarrow> GraphNode list" where
  "methodsNamed g className methodName =
     map snd (filter (\<lambda>(k, node). Label node = NodeMethod \<and> ClassName node = className \<and>
                                   Name node = methodName) (nodes g))"

definition findClassByName :: "nat \<Rightarrow> KnowledgeGraph \<Rightarrow> string \<Rightarrow> GraphNode option" where
  "findClassByName choice g className = pick choice (classesNamed g className)"

definition findBaseClasses :: "KnowledgeGraph \<Rightarrow> GraphNode \<Rightarrow> GraphNode list" where
  "findBaseClasses g class =
     fold (\<lambda>rel baseClasses.
             (case GetNode g (Target rel) of
                Some baseClass \<Rightarrow>
                  if Label baseClass = NodeClass then baseClasses @ [baseClass] else baseClasses
              | None \<Rightarrow> baseClasses))
       (GetOutgoing g (ID class) [RelExtends]) []"

definition findMethodInClass :: "nat \<Rightarrow> KnowledgeGraph \<Rightarrow> GraphNode \<Rightarrow> string \<Rightarrow> GraphNode option" where
  "findMethodInClass choice g class methodName =
     pick choice (methodsNamed g (Name class) methodName)"

text \<open>
  The numbers for one run of the pass: for the check of the method stored under a key,
  the choice of its class node, and the choice of the method found in its base class
  number \<open>j\<close>. The pass checks each key once, so every call has numbers of its own.
\<close>

record schedule =
  classChoice :: "string \<Rightarrow> nat"
  methodChoice :: "string \<Rightarrow> nat \<Rightarrow> nat"

definition first_match :: schedule where
  "first_match = \<lparr>classChoice = (\<lambda>k. 0), methodChoice = (\<lambda>k j. 0)\<rparr>"

definition isOverrideOfNonDeadMethod ::
  "schedule \<Rightarrow> string \<Rightarrow> KnowledgeGraph \<Rightarrow> GraphNode \<Rightarrow> bool" where
  "isOverrideOfNonDeadMethod sched k g method =
     (if ClassName method = '''' then False
      else
        (case findClassByName (classChoice sched k) g (ClassName method) of
           None \<Rightarrow> False
         | Some classNode \<Rightarrow>
             list_ex (\<lambda>(j, baseClass).
                        (case findMethodInClass (methodChoice sched k j) g baseClass
                                (Name method) of
                           Some baseMethod \<Rightarrow> \<not> IsDead baseMethod
                         | None \<Rightarrow> False))
               (enumerate 0 (findBaseClasses g classNode))))"

definition applyOverridePass :: "schedule \<Rightarrow> KnowledgeGraph \<Rightarrow> KnowledgeGraph" where
  "applyOverridePass sched g =
     forNodes g (\<lambda>k node h.
       if \<not> IsDead node then h
       else if Label node \<noteq> NodeMethod then h
       else if isOverrideOfNonDeadMethod sched k h node
       then modifyNode k (\<lambda>n. n\<lparr>IsDead := False\<rparr>) h
       else h)"

subsection \<open>Pass 1: detectCallPatterns\<close>

definition hasDynamicDispatch :: "GraphNode \<Rightarrow> bool" where
  "hasDynamicDispatch node =
     (if Properties node ''has_dynamic_dispatch'' = Some (VBool True) then True
      else if Contains (FilePath node) ''server.go'' \<and> Contains (Name node) ''handle'' then True
      else False)"

definition hasSwitchDispatch :: "GraphNode \<Rightarrow> bool" where
  "hasSwitchDispatch node =
     (if Properties node ''has_switch_dispatch'' = Some (VBool True) then True
      else if Contains (FilePath node) ''cmd.go'' \<and>
              (Name node = ''Run'' \<or> HasSuffix (Name node) ''Cmd'') then True
      else False)"

text \<open>Tag every callee of \<open>callerID\<close> that is a node with the call pattern.\<close>

definition tagCallees :: "string \<Rightarrow> string \<Rightarrow> KnowledgeGraph \<Rightarrow> KnowledgeGraph" where
  "tagCallees callerID pattern h =
     fold (\<lambda>rel h'.
             (case GetNode h' (Target rel) of
                Some callee \<Rightarrow>
                  modifyNode (Target rel) (setProperty ''call_pattern'' (VString pattern)) h'
              | None \<Rightarrow> h'))
       (GetOutgoing h callerID [RelCalls]) h"

definition detectCallPatterns :: "KnowledgeGraph \<Rightarrow> KnowledgeGraph" where
  "detectCallPatterns g =
     forNodes g (\<lambda>k caller h.
       (let h1 = (if hasDynamicDispatch caller
                  then tagCallees (ID caller) ''dynamic_dispatch'' h else h)
        in (case map_of (nodes h1) k of
              None \<Rightarrow> h1
            | Some caller' \<Rightarrow>
                if hasSwitchDispatch caller'
                then tagCallees (ID caller') ''framework_dispatch'' h1 else h1)))"

subsection \<open>Pass 3: trackIntraClassCalls\<close>

text \<open>
  The map \<^verbatim>\<open>classMethods\<close> is built and never read; it is left out.
  \<^verbatim>\<open>fileMethods\<close> maps a file path to the method pointers of that file by name.
\<close>

definition fileMethods :: "KnowledgeGraph \<Rightarrow> (string, (string, string) gomap) gomap" where
  "fileMethods g =
     fold (\<lambda>(k, node) fm.
             if Label node = NodeMethod then store_in (FilePath node) (Name node) k fm else fm)
       (nodes g) []"

definition untagIntraClass :: "GraphNode \<Rightarrow> KnowledgeGraph \<Rightarrow> KnowledgeGraph" where
  "untagIntraClass node h =
     fold (\<lambda>rel h'.
             (case GetNode h' (Target rel) of
                Some callee \<Rightarrow>
                  if Label callee = NodeMethod \<and> ClassName callee = ClassName node
                  then modifyNode (Target rel)
                         (\<lambda>n. setProperty ''call_pattern'' (VString ''intra_class'')
                                 (n\<lparr>IsDead := False\<rparr>)) h'
                  else h'
              | None \<Rightarrow> h'))
       (GetOutgoing h (ID node) [RelCalls]) h"

definition untagIntraFile :: "string \<Rightarrow> string \<Rightarrow> KnowledgeGraph \<Rightarrow> KnowledgeGraph" where
  "untagIntraFile filePath callerID h =
     fold (\<lambda>rel h'.
             (case GetNode h' (Target rel) of
                Some callee \<Rightarrow>
                  if Label callee = NodeMethod \<and> FilePath callee = filePath
                  then modifyNode (Target rel)
                         (\<lambda>n. setProperty ''call_pattern'' (VString ''intra_file'')
                                 (n\<lparr>IsDead := False\<rparr>)) h'
                  else h'
              | None \<Rightarrow> h'))
       (GetOutgoing h callerID [RelCalls]) h"

text \<open>
  \<^verbatim>\<open>methodNodes\<close> of one file: the method pointers again, keyed by the name the
  method has.
\<close>

definition methodNodes :: "KnowledgeGraph \<Rightarrow> (string, string) gomap \<Rightarrow> (string, string) gomap" where
  "methodNodes h methods =
     fold (\<lambda>(name, k) mn.
             (case map_of (nodes h) k of
                Some method \<Rightarrow> AList.update (Name method) k mn
              | None \<Rightarrow> mn))
       methods []"

definition trackIntraClassCalls :: "KnowledgeGraph \<Rightarrow> KnowledgeGraph" where
  "trackIntraClassCalls g =
     (let fm = fileMethods g;
          g1 = forNodes g (\<lambda>k node h.
                 if Label node = NodeMethod \<and> ClassName node \<noteq> ''''
                 then untagIntraClass node h else h)
      in fold (\<lambda>(filePath, methods) h.
                 fold (\<lambda>(name, k) h'.
                         (case map_of (nodes h') k of
                            Some caller \<Rightarrow> untagIntraFile filePath (ID caller) h'
                          | None \<Rightarrow> h'))
                   (methodNodes h methods) h)
           fm g1)"

subsection \<open>Pass 5: applyAllowlistExemptions\<close>

definition isAllowlistExempt :: "GraphNode \<Rightarrow> bool" where
  "isAllowlistExempt node =
     (if Contains (FilePath node) ''server.go'' \<and> HasPrefix (Name node) ''handle'' then True
      else if Contains (FilePath node) ''cmd.go'' \<and>
              (HasPrefix (Name node) ''setup'' \<or> HasPrefix (Name node) ''configure'' \<or>
               HasPrefix (Name node) ''output'') then True
      else if HasPrefix (Name node) ''register'' then True
      else
        (case Properties node ''call_pattern'' of
           Some (VString pattern) \<Rightarrow>
             pattern = ''dynamic_dispatch'' \<or> pattern = ''framework_dispatch'' \<or>
             pattern = ''mcp_handler'' \<or> pattern = ''cli_subcommand''
         | _ \<Rightarrow> False))"

definition applyAllowlistExemptions :: "KnowledgeGraph \<Rightarrow> KnowledgeGraph" where
  "applyAllowlistExemptions g =
     forNodes g (\<lambda>k node h.
       if \<not> IsDead node then h
       else if isAllowlistExempt node
       then modifyNode k
              (\<lambda>n. setProperty ''exempt_reason'' (VString ''framework_pattern'')
                      (setProperty ''dead_code_exempt'' (VBool True) (n\<lparr>IsDead := False\<rparr>))) h
       else h)"

subsection \<open>Pass 7: assignConfidenceScores\<close>

text \<open>\<^verbatim>\<open>len(s) > 0 && s[0] >= 'a' && s[0] <= 'z'\<close>, on the first byte.\<close>

definition lowerInitial :: "string \<Rightarrow> bool" where
  "lowerInitial s =
     (case s of [] \<Rightarrow> False
      | c # _ \<Rightarrow> (of_char c :: nat) \<ge> of_char CHR ''a'' \<and> (of_char c :: nat) \<le> of_char CHR ''z'')"

definition confidenceOf :: "GraphNode \<Rightarrow> string" where
  "confidenceOf node =
     (let confidence = ''high'';
          confidence = (case Properties node ''call_pattern'' of
                          Some (VString pattern) \<Rightarrow>
                            if pattern = ''dynamic_dispatch'' \<or> pattern = ''framework_dispatch''
                            then ''low'' else confidence
                        | _ \<Rightarrow> confidence);
          confidence = (case Properties node ''call_pattern'' of
                          Some (VString pattern) \<Rightarrow>
                            if pattern = ''intra_class'' then ''medium'' else confidence
                        | _ \<Rightarrow> confidence);
          confidence = (if isTestFunction node \<or> Contains (FilePath node) ''_test''
                        then ''medium'' else confidence);
          confidence = (if (Label node = NodeMethod \<or> Label node = NodeFunction) \<and>
                           lowerInitial (Name node) \<and> confidence = ''high''
                        then ''medium'' else confidence)
      in confidence)"

definition assignConfidenceScores :: "KnowledgeGraph \<Rightarrow> KnowledgeGraph" where
  "assignConfidenceScores g =
     forNodes g (\<lambda>k node h.
       if \<not> IsDead node then h
       else modifyNode k
              (\<lambda>n. setProperty ''dead_code_confidence'' (VString (confidenceOf n)) n) h)"

subsection \<open>ProcessDeadCode\<close>

text \<open>The graph as the override pass finds it: after passes 1 to 5.\<close>

definition beforeOverridePass :: "KnowledgeGraph \<Rightarrow> KnowledgeGraph" where
  "beforeOverridePass g =
     applyAllowlistExemptions (applyExemptions (trackIntraClassCalls
       (flagUnreachable (detectCallPatterns g))))"

definition ProcessDeadCode :: "schedule \<Rightarrow> KnowledgeGraph \<Rightarrow> KnowledgeGraph \<times> int" where
  "ProcessDeadCode sched g =
     (let g1 = detectCallPatterns g;
          g2 = flagUnreachable g1;
          g3 = trackIntraClassCalls g2;
          g4 = applyExemptions g3;
          g5 = applyAllowlistExemptions g4;
          g6 = applyOverridePass sched g5;
          g7 = assignConfidenceScores g6;
          count = int (length (filter (\<lambda>(k, node). IsDead node) (nodes g7)))
      in (g7, count))"

definition GetDeadCodeList :: "KnowledgeGraph \<Rightarrow> GraphNode list" where
  "GetDeadCodeList g = map snd (filter (\<lambda>(k, node). IsDead node) (nodes g))"

subsection \<open>What the passes change, and the loop bodies named\<close>

text \<open>
  The passes write \<^verbatim>\<open>IsDead\<close> and \<^verbatim>\<open>Properties\<close> only:
  \<open>static_eq n n'\<close> says that \<open>n'\<close> is \<open>n\<close> up to these two fields, and
  \<open>evolves dec g g'\<close> that \<open>g'\<close> is \<open>g\<close> with nodes rewritten in that way, in
  the same order and under the same keys (with \<open>dec\<close>: no dead flag was raised).
\<close>

definition static_eq :: "GraphNode \<Rightarrow> GraphNode \<Rightarrow> bool" where
  "static_eq n n' = (n'\<lparr>IsDead := IsDead n, Properties := Properties n\<rparr> = n)"

definition node_rel :: "bool \<Rightarrow> string \<times> GraphNode \<Rightarrow> string \<times> GraphNode \<Rightarrow> bool" where
  "node_rel dec x y =
     (fst y = fst x \<and> static_eq (snd x) (snd y) \<and> (dec \<longrightarrow> IsDead (snd y) \<longrightarrow> IsDead (snd x)))"

definition evolves :: "bool \<Rightarrow> KnowledgeGraph \<Rightarrow> KnowledgeGraph \<Rightarrow> bool" where
  "evolves dec g g' =
     (relationships g' = relationships g \<and> byLabel g' = byLabel g \<and>
      byRelType g' = byRelType g \<and> outgoing g' = outgoing g \<and> incoming g' = incoming g \<and>
      list_all2 (node_rel dec) (nodes g) (nodes g'))"

text \<open>
  The bodies of the loops of \<^const>\<open>applyExemptions\<close> and
  \<^const>\<open>applyOverridePass\<close>.
\<close>

definition exempt_step :: "string \<Rightarrow> KnowledgeGraph \<Rightarrow> KnowledgeGraph" where
  "exempt_step k h =
     (case map_of (nodes h) k of
        None \<Rightarrow> h
      | Some node \<Rightarrow>
          if \<not> IsDead node then h
          else if isDeadCodeExempt node then modifyNode k (\<lambda>n. n\<lparr>IsDead := False\<rparr>) h
          else h)"

definition override_step :: "schedule \<Rightarrow> string \<Rightarrow> KnowledgeGraph \<Rightarrow> KnowledgeGraph" where
  "override_step sched k h =
     (case map_of (nodes h) k of
        None \<Rightarrow> h
      | Some node \<Rightarrow>
          if \<not> IsDead node then h
          else if Label node \<noteq> NodeMethod then h
          else if isOverrideOfNonDeadMethod sched k h node
          then modifyNode k (\<lambda>n. n\<lparr>IsDead := False\<rparr>) h
          else h)"

subsection \<open>Test graphs for the dead-code phase\<close>

definition mkMethod :: "string \<Rightarrow> string \<Rightarrow> string \<Rightarrow> string \<Rightarrow> GraphNode" where
  "mkMethod i n f c = (mkNode i NodeMethod n f)\<lparr>ClassName := c\<rparr>"

text \<open>
  End-to-end scenario 2: \<open>main\<close> is an entry point and calls \<open>helper\<close>;
  nobody calls \<open>bar\<close>.
\<close>

definition scenario2_graph :: KnowledgeGraph where
  "scenario2_graph =
     AddRelationship
       (AddNode (AddNode (AddNode NewKnowledgeGraph
          ((mkNode ''function:main.go:main'' NodeFunction ''main'' ''main.go'')\<lparr>IsEntryPoint := True\<rparr>))
          (mkNode ''function:main.go:helper'' NodeFunction ''helper'' ''main.go''))
          (mkNode ''function:main.go:bar'' NodeFunction ''bar'' ''main.go''))
       (mkRel ''calls:1'' RelCalls ''function:main.go:main'' ''function:main.go:helper'')"

text \<open>Derived extends Base; Base.run is called from main, Derived.run by nobody.\<close>

definition direct_base_graph :: KnowledgeGraph where
  "direct_base_graph =
     fold (\<lambda>r g. AddRelationship g r)
       [mkRel ''calls:1'' RelCalls ''function:main.py:main'' ''method:base.py:Base.run'',
        mkRel ''extends:1'' RelExtends ''class:derived.py:Derived'' ''class:base.py:Base'']
       (fold (\<lambda>n g. AddNode g n)
          [(mkNode ''function:main.py:main'' NodeFunction ''main'' ''main.py'')\<lparr>IsEntryPoint := True\<rparr>,
           mkNode ''class:base.py:Base'' NodeClass ''Base'' ''base.py'',
           mkNode ''class:derived.py:Derived'' NodeClass ''Derived'' ''derived.py'',
           mkMethod ''method:base.py:Base.run'' ''run'' ''base.py'' ''Base'',
           mkMethod ''method:derived.py:Derived.run'' ''run'' ''derived.py'' ''Derived'']
          NewKnowledgeGraph)"

text \<open>
  Leaf extends Middle extends Base; Base.run is called from main, Middle has no method
  run, Leaf.run is called by nobody.
\<close>

definition grandparent_graph :: KnowledgeGraph where
  "grandparent_graph =
     fold (\<lambda>r g. AddRelationship g r)
       [mkRel ''calls:1'' RelCalls ''function:main.py:main'' ''method:base.py:Base.run'',
        mkRel ''extends:1'' RelExtends ''class:middle.py:Middle'' ''class:base.py:Base'',
        mkRel ''extends:2'' RelExtends ''class:leaf.py:Leaf'' ''class:middle.py:Middle'']
       (fold (\<lambda>n g. AddNode g n)
          [(mkNode ''function:main.py:main'' NodeFunction ''main'' ''main.py'')\<lparr>IsEntryPoint := True\<rparr>,
           mkNode ''class:base.py:Base'' NodeClass ''Base'' ''base.py'',
           mkNode ''class:middle.py:Middle'' NodeClass ''Middle'' ''middle.py'',
           mkNode ''class:leaf.py:Leaf'' NodeClass ''Leaf'' ''leaf.py'',
           mkMethod ''method:base.py:Base.run'' ''run'' ''base.py'' ''Base'',
           mkMethod ''method:leaf.py:Leaf.run'' ''run'' ''leaf.py'' ''Leaf'']
          NewKnowledgeGraph)"

text \<open>
  A method \<open>test_login\<close> of class \<open>Auth\<close> in \<open>auth.py\<close>, called by nobody and
  not exported.
\<close>

definition test_method_graph :: KnowledgeGraph where
  "test_method_graph =
     AddNode (AddNode NewKnowledgeGraph
       (mkNode ''class:auth.py:Auth'' NodeClass ''Auth'' ''auth.py''))
       (mkMethod ''method:auth.py:Auth.test_login'' ''test_login'' ''auth.py'' ''Auth'')"

section \<open>Graph traversal in the persistent store (package storage)\<close>

datatype error = Error string

text \<open>
  \<^verbatim>\<open>BadgerBackend\<close>, as \<^verbatim>\<open>Traverse\<close> sees it. The three reads
  go through the transaction API of the key-value store, which is a library outside the
  repository; what they return for each node ID is the parameter. \<^verbatim>\<open>getNode\<close>
  returns an error, nil (key not found) or the node.
\<close>

record BadgerBackend =
  getNode :: "string \<Rightarrow> error + GraphNode option"
  GetCallers :: "string \<Rightarrow> error + GraphNode list"
  GetCallees :: "string \<Rightarrow> error + GraphNode list"

text \<open>
  The neighbours not yet visited, appended to the queue one level deeper.
\<close>

definition enqueue_neighbors :: "GraphNode list \<Rightarrow> string set \<Rightarrow> int \<Rightarrow> (string \<times> int) list" where
  "enqueue_neighbors neighbors visited d =
     map (\<lambda>neighbor. (ID neighbor, d + 1)) (filter (\<lambda>neighbor. ID neighbor \<notin> visited) neighbors)"

text \<open>
  The lookup of a dequeued node other than the start node: \<open>None\<close> is the
  \<^verbatim>\<open>continue\<close> on an error, otherwise the result list with the node appended
  when it exists.
\<close>

definition fetch_node :: "BadgerBackend \<Rightarrow> string \<Rightarrow> string \<Rightarrow> GraphNode list \<Rightarrow> GraphNode list option" where
  "fetch_node b startID nodeID result =
     (if nodeID \<noteq> startID
      then (case getNode b nodeID of
              Inl err \<Rightarrow> None
            | Inr None \<Rightarrow> Some result
            | Inr (Some node) \<Rightarrow> Some (result @ [node]))
      else Some result)"

text \<open>
  The loop \<^verbatim>\<open>for len(queue) > 0\<close> of \<^verbatim>\<open>Traverse\<close>, with the
  queue, the visited set and the result as its state.
\<close>

function traverse_loop ::
  "BadgerBackend \<Rightarrow> string \<Rightarrow> int \<Rightarrow> string \<Rightarrow> (string \<times> int) list \<Rightarrow> string set \<Rightarrow>
   GraphNode list \<Rightarrow> GraphNode list" where
  "traverse_loop b startID depth direction [] visited result = result"
| "traverse_loop b startID depth direction ((nodeID, d) # queue) visited result =
     (if nodeID \<in> visited then traverse_loop b startID depth direction queue visited result
      else
        (let visited' = insert nodeID visited
         in (case fetch_node b startID nodeID result of
               None \<Rightarrow> traverse_loop b startID depth direction queue visited' result
             | Some result' \<Rightarrow>
                 if d < depth
                 then (case (if direction = ''callers'' then GetCallers b nodeID
                             else GetCallees b nodeID) of
                         Inl err \<Rightarrow> traverse_loop b startID depth direction queue visited' result'
                       | Inr neighbors \<Rightarrow>
                           traverse_loop b startID depth direction
                             (queue @ enqueue_neighbors neighbors visited' d) visited' result')
                 else traverse_loop b startID depth direction queue visited' result')))"
  by pat_completeness auto

text \<open>
  The loop ends: a dequeued item is replaced by items strictly deeper, and no item is
  expanded at the depth bound, so the multiset of remaining depths decreases.
\<close>

definition queue_weight :: "int \<Rightarrow> (string \<times> int) list \<Rightarrow> nat multiset" where
  "queue_weight depth queue = mset (map (\<lambda>item. nat (depth - snd item)) queue)"

lemma queue_weight_pop:
  "(queue_weight depth queue, queue_weight depth ((nodeID, d) # queue)) \<in> mult less_than"
  using one_step_implies_mult[of "{#nat (depth - d)#}" "{#}" less_than "queue_weight depth queue"]
  by (simp add: queue_weight_def)

lemma queue_weight_expand:
  assumes "d < depth"
  shows "(queue_weight depth (queue @ enqueue_neighbors neighbors visited d),
          queue_weight depth ((nodeID, d) # queue)) \<in> mult less_than"
proof -
  have "\<forall>k \<in># queue_weight depth (enqueue_neighbors neighbors visited d).
          \<exists>j \<in># {#nat (depth - d)#}. (k, j) \<in> less_than"
    using assms by (auto simp: queue_weight_def enqueue_neighbors_def)
  from one_step_implies_mult[OF _ this, of "queue_weight depth queue"]
  show ?thesis by (simp add: queue_weight_def)
qed

termination traverse_loop
  apply (relation "inv_image (mult less_than)
           (\<lambda>(b, startID, depth, direction, queue, visited, result). queue_weight depth queue)")
  apply (simp add: wf_mult)
  apply (simp_all add: queue_weight_pop queue_weight_expand)
  done

definition Traverse :: "BadgerBackend \<Rightarrow> string \<Rightarrow> int \<Rightarrow> string \<Rightarrow> GraphNode list \<times> error option" where
  "Traverse b startID depth direction =
     (let depth = (if depth > 10 then 10 else depth)
      in (traverse_loop b startID depth direction [(startID, 0)] {} [], None))"

text \<open>A store holding \<open>main\<close> calls \<open>foo\<close> calls \<open>bar\<close>.\<close>

definition call_backend :: BadgerBackend where
  "call_backend =
     \<lparr>getNode = (\<lambda>nodeID.
          Inr (map_of
            [(''function:main.go:main'', mkNode ''function:main.go:main'' NodeFunction ''main'' ''main.go''),
             (''function:main.go:foo'', mkNode ''function:main.go:foo'' NodeFunction ''foo'' ''main.go''),
             (''function:main.go:bar'', mkNode ''function:main.go:bar'' NodeFunction ''bar'' ''main.go'')]
            nodeID)),
      GetCallers = (\<lambda>nodeID.
          Inr (if nodeID = ''function:main.go:foo''
               then [mkNode ''function:main.go:main'' NodeFunction ''main'' ''main.go'']
               else if nodeID = ''function:main.go:bar''
               then [mkNode ''function:main.go:foo'' NodeFunction ''foo'' ''main.go'']
               else [])),
      GetCallees = (\<lambda>nodeID.
          Inr (if nodeID = ''function:main.go:main''
               then [mkNode ''function:main.go:foo'' NodeFunction ''foo'' ''main.go'']
               else if nodeID = ''function:main.go:foo''
               then [mkNode ''function:main.go:bar'' NodeFunction ''bar'' ''main.go'']
               else []))\<rparr>"

section \<open>The pipeline (package ingestion)\<close>

text \<open>
  \<^verbatim>\<open>RunPipeline\<close> is the orchestrator: it calls the phases one after the other
  on the graph it owns and reports progress around each. The phases themselves are the
  parameter \<open>impl\<close>, a state transformer for each phase; the state stands for the graph,
  the parse data and the result record. The model keeps the order of the calls as a
  trace. Whether \<^verbatim>\<open>WalkRepo\<close> and \<^verbatim>\<open>BulkLoad\<close> fail is a
  parameter too; a failure of the embedding phase is printed and otherwise ignored.
\<close>

datatype phase =
  Walk | Structure | Parsing | Imports | Calls | Heritage | Types
| Communities | Processes | DeadCode | Coupling | Embeddings | Load

text \<open>The number the specification and the comments of the code give each phase.\<close>

fun phase_number :: "phase \<Rightarrow> nat" where
  "phase_number Walk = 1"
| "phase_number Structure = 2"
| "phase_number Parsing = 3"
| "phase_number Imports = 4"
| "phase_number Calls = 5"
| "phase_number Heritage = 6"
| "phase_number Types = 7"
| "phase_number Communities = 8"
| "phase_number Processes = 9"
| "phase_number DeadCode = 10"
| "phase_number Coupling = 11"
| "phase_number Embeddings = 12"
| "phase_number Load = 13"

datatype event = Progress string real | Enter phase | Return phase

type_synonym 's run = "'s \<times> event list"

text \<open>A phase is a call: it is entered, changes the state and returns.\<close>

definition call_phase :: "(phase \<Rightarrow> 's \<Rightarrow> 's) \<Rightarrow> phase \<Rightarrow> 's run \<Rightarrow> 's run" where
  "call_phase impl p st = (impl p (fst st), snd st @ [Enter p, Return p])"

text \<open>\<^verbatim>\<open>if progress != nil { progress(name, v) }\<close>\<close>

definition report :: "bool \<Rightarrow> string \<Rightarrow> real \<Rightarrow> 's run \<Rightarrow> 's run" where
  "report progress name v st = (if progress then (fst st, snd st @ [Progress name v]) else st)"

definition reported_phase ::
  "(phase \<Rightarrow> 's \<Rightarrow> 's) \<Rightarrow> bool \<Rightarrow> string \<Rightarrow> phase \<Rightarrow> 's run \<Rightarrow> 's run" where
  "reported_phase impl progress name p st =
     report progress name 1 (call_phase impl p (report progress name 0 st))"

text \<open>
  The phases in the order of the source text of \<^verbatim>\<open>RunPipeline\<close>
  (\<^verbatim>\<open>store\<close>: a storage backend was passed).
\<close>

definition RunPipeline ::
  "(phase \<Rightarrow> 's \<Rightarrow> 's) \<Rightarrow> error option \<Rightarrow> error option \<Rightarrow> bool \<Rightarrow> bool \<Rightarrow> bool \<Rightarrow> 's \<Rightarrow>
   (error + 's) \<times> event list" where
  "RunPipeline impl walkErr loadErr store progress embeddings s0 =
     (let st = report progress ''Walking files'' 0 (s0, []);
          st = call_phase impl Walk st
      in (case walkErr of
            Some err \<Rightarrow> (Inl err, snd st)
          | None \<Rightarrow>
             (let st = report progress ''Walking files'' 1 st;
                  st = reported_phase impl progress ''Processing structure'' Structure st;
                  st = reported_phase impl progress ''Parsing code'' Parsing st;
                  st = reported_phase impl progress ''Resolving imports'' Imports st;
                  st = reported_phase impl progress ''Tracing calls'' Calls st;
                  st = reported_phase impl progress ''Extracting heritage'' Heritage st;
                  st = reported_phase impl progress ''Analyzing types'' Types st;
                  st = reported_phase impl progress ''Detecting execution flows'' Processes st;
                  st = reported_phase impl progress ''Detecting communities'' Communities st;
                  st = reported_phase impl progress ''Analyzing git history'' Coupling st;
                  st = reported_phase impl progress ''Detecting dead code'' DeadCode st;
                  st = (if embeddings
                        then reported_phase impl progress ''Generating embeddings'' Embeddings st
                        else st)
              in if store
                 then (let st = report progress ''Loading to storage'' 0 st;
                           st = call_phase impl Load st
                       in (case loadErr of
                             Some err \<Rightarrow> (Inl err, snd st)
                           | None \<Rightarrow>
                               (let st = report progress ''Loading to storage'' 1 st
                                in (Inr (fst st), snd st))))
                 else (Inr (fst st), snd st))))"

text \<open>The phases of a trace, in the order they were entered.\<close>

definition phases_entered :: "event list \<Rightarrow> phase list" where
  "phases_entered evs = concat (map (\<lambda>e. case e of Enter p \<Rightarrow> [p] | _ \<Rightarrow> []) evs)"

section \<open>Floating-point values\<close>

text \<open>
  A \<^verbatim>\<open>float64\<close> is an infinity, not-a-number, or a finite value. Finite
  values are taken as exact reals: rounding and overflow are left out, so where the
  specification says ``within \<open>\<epsilon>\<close>'' the model has equality. The infinities are kept
  because the code can produce them from integers: \<^verbatim>\<open>math.Log(0)\<close> is minus
  infinity and \<^verbatim>\<open>1.0 / float64(0)\<close> is plus infinity.
\<close>

datatype float64 = NegInf | NaN | Finite real | PosInf




section \<open>The TF-IDF embedder (package embeddings)\<close>

definition EmbeddingDimension :: int where "EmbeddingDimension = 100"

text \<open>\<^verbatim>\<open>math.Log(float64(n) / float64(d))\<close> for a positive \<open>d\<close>.\<close>

definition log_ratio :: "int \<Rightarrow> int \<Rightarrow> float64" where
  "log_ratio n d =
     (if n = 0 then NegInf
      else if n < 0 then NaN
      else Finite (ln (real_of_int n / real_of_int d)))"

record TFIDFEmbedder =
  idf :: "string \<rightharpoonup> float64"
  docCount :: int
  vocab :: "string \<rightharpoonup> int"

definition NewTFIDFEmbedder :: TFIDFEmbedder where
  "NewTFIDFEmbedder = \<lparr>idf = Map.empty, docCount = 0, vocab = Map.empty\<rparr>"

text \<open>
  \<^verbatim>\<open>tokenize\<close>, on ASCII text: lower-case, split at every byte that is not a
  lower-case letter or a digit, keep the terms of two bytes or more.
\<close>

definition toLower :: "char \<Rightarrow> char" where
  "toLower c =
     (if (of_char c :: nat) \<ge> of_char CHR ''A'' \<and> (of_char c :: nat) \<le> of_char CHR ''Z''
      then char_of ((of_char c :: nat) + 32) else c)"

definition isSeparator :: "char \<Rightarrow> bool" where
  "isSeparator r =
     (\<not> (((of_char r :: nat) \<ge> of_char CHR ''a'' \<and> (of_char r :: nat) \<le> of_char CHR ''z'') \<or>
         ((of_char r :: nat) \<ge> of_char CHR ''0'' \<and> (of_char r :: nat) \<le> of_char CHR ''9'')))"

text \<open>\<^verbatim>\<open>strings.FieldsFunc\<close>: the maximal runs of bytes that are not separators.\<close>

fun FieldsFunc :: "(char \<Rightarrow> bool) \<Rightarrow> string \<Rightarrow> string \<Rightarrow> string list" where
  "FieldsFunc f [] field = (if field = [] then [] else [field])"
| "FieldsFunc f (c # cs) field =
     (if f c then (if field = [] then FieldsFunc f cs [] else field # FieldsFunc f cs [])
      else FieldsFunc f cs (field @ [c]))"

definition tokenize :: "string \<Rightarrow> string list" where
  "tokenize text =
     (let text = map toLower text;
          terms = FieldsFunc isSeparator text []
      in filter (\<lambda>term. length term \<ge> 2) terms)"

text \<open>
  The inner loop of \<^verbatim>\<open>BuildVocabulary\<close> over the terms of one document. The
  last component says that the loop left the function through \<^verbatim>\<open>return\<close>.
\<close>

fun vocab_terms ::
  "string list \<Rightarrow> string set \<Rightarrow> (string \<rightharpoonup> int) \<Rightarrow> int \<Rightarrow> (string \<rightharpoonup> int) \<times> int \<times> bool" where
  "vocab_terms [] seen v termIndex = (v, termIndex, False)"
| "vocab_terms (term # terms) seen v termIndex =
     (if term \<notin> seen then
        (case v term of
           None \<Rightarrow>
             (let v' = v(term \<mapsto> termIndex); termIndex' = termIndex + 1
              in if termIndex' \<ge> EmbeddingDimension then (v', termIndex', True)
                 else vocab_terms terms (insert term seen) v' termIndex')
         | Some _ \<Rightarrow> vocab_terms terms (insert term seen) v termIndex)
      else vocab_terms terms seen v termIndex)"

fun vocab_docs :: "string list \<Rightarrow> (string \<rightharpoonup> int) \<Rightarrow> int \<Rightarrow> (string \<rightharpoonup> int) \<times> bool" where
  "vocab_docs [] v termIndex = (v, False)"
| "vocab_docs (doc # docs) v termIndex =
     (case vocab_terms (tokenize doc) {} v termIndex of
        (v', termIndex', returned) \<Rightarrow>
          if returned then (v', True) else vocab_docs docs v' termIndex')"

text \<open>
  \<^verbatim>\<open>e.docCount = len(docs)\<close> is the statement after the loop: the
  \<^verbatim>\<open>return\<close> inside the loop skips it.
\<close>

definition BuildVocabulary :: "TFIDFEmbedder \<Rightarrow> string list \<Rightarrow> TFIDFEmbedder" where
  "BuildVocabulary e docs =
     (case vocab_docs docs (vocab e) 0 of
        (v, returned) \<Rightarrow>
          if returned then e\<lparr>vocab := v\<rparr>
          else e\<lparr>vocab := v, docCount := int (length docs)\<rparr>)"

text \<open>The document frequencies \<^verbatim>\<open>docFreq\<close> of \<^verbatim>\<open>ComputeIDF\<close>.\<close>

fun docFreq_terms :: "string list \<Rightarrow> string set \<Rightarrow> (string, int) gomap \<Rightarrow> (string, int) gomap" where
  "docFreq_terms [] seen df = df"
| "docFreq_terms (term # terms) seen df =
     (if term \<notin> seen
      then docFreq_terms terms (insert term seen)
             (AList.update term ((case map_of df term of None \<Rightarrow> 0 | Some n \<Rightarrow> n) + 1) df)
      else docFreq_terms terms seen df)"

definition docFreq :: "string list \<Rightarrow> (string, int) gomap" where
  "docFreq docs = fold (\<lambda>doc df. docFreq_terms (tokenize doc) {} df) docs []"

definition ComputeIDF :: "TFIDFEmbedder \<Rightarrow> string list \<Rightarrow> TFIDFEmbedder" where
  "ComputeIDF e docs =
     fold (\<lambda>(term, df) e'.
             if df > 0 then e'\<lparr>idf := (idf e')(term \<mapsto> log_ratio (docCount e') df)\<rparr> else e')
       (docFreq docs) e"

text \<open>A document of one hundred distinct terms, \<open>aa\<close> to \<open>jj\<close>.\<close>

definition hundred_terms :: string where
  "hundred_terms = ''aa ab ac ad ae af ag ah ai aj ba bb bc bd be bf bg bh bi bj '' @
     ''ca cb cc cd ce cf cg ch ci cj da db dc dd de df dg dh di dj '' @
     ''ea eb ec ed ee ef eg eh ei ej fa fb fc fd fe ff fg fh fi fj '' @
     ''ga gb gc gd ge gf gg gh gi gj ha hb hc hd he hf hg hh hi hj '' @
     ''ia ib ic id ie if ig ih ii ij ja jb jc jd je jf jg jh ji jj''"

section \<open>Cosine similarity\<close>




section \<open>Hybrid search\<close>




















section \<open>The file walker\<close>

text \<open>
  \<^verbatim>\<open>WalkRepo\<close> of \<^verbatim>\<open>internal/ingestion/walker.go\<close> runs on a file
  system. What the system calls return is the input of the model: a file carries the
  result of \<^verbatim>\<open>os.ReadFile\<close>, a directory the listing \<^verbatim>\<open>os.ReadDir\<close>
  returns, in the order of the names, or the error it fails with.
\<close>

datatype fsnode =
  FileNode "error + string"
| DirNode "(string \<times> fsnode) list"
| BrokenDir error

fun isDirNode :: "fsnode \<Rightarrow> bool" where
  "isDirNode (FileNode r) = False"
| "isDirNode (DirNode dirs) = True"
| "isDirNode (BrokenDir e) = True"

subsection \<open>The library function \<^verbatim>\<open>filepath.WalkDir\<close>\<close>

text \<open>
  The errors a callback returns: the marker \<^verbatim>\<open>filepath.SkipDir\<close> or another
  error (\<^verbatim>\<open>SkipAll\<close> is not used by the walker). The callback receives the path,
  the directory entry (its name and the node; nil only together with the error of
  \<^verbatim>\<open>Lstat\<close>), the error and the state of the variables it has captured.
\<close>

datatype walkerr = SkipDir | Other error

type_synonym 's WalkDirFunc =
  "string \<Rightarrow> (string \<times> fsnode) option \<Rightarrow> error option \<Rightarrow> 's \<Rightarrow> 's \<times> walkerr option"

text \<open>
  \<^verbatim>\<open>walkDir(path, d, fn)\<close>, one equation for each kind of node, and its loop over
  the listing. A file: the result of the callback. A directory: the callback first; a
  \<^verbatim>\<open>SkipDir\<close> ends the directory without error; a listing that fails is reported
  to the callback in a second call; otherwise the entries are walked in turn, a
  \<^verbatim>\<open>SkipDir\<close> from one of them ends the loop and any other error is returned at
  once.
\<close>

fun walkDir :: "'s WalkDirFunc \<Rightarrow> string \<Rightarrow> string \<Rightarrow> fsnode \<Rightarrow> 's \<Rightarrow> 's \<times> walkerr option"
  and walkEntries :: "'s WalkDirFunc \<Rightarrow> string \<Rightarrow> (string \<times> fsnode) list \<Rightarrow> 's \<Rightarrow> 's \<times> walkerr option"
where
  "walkDir fn path name (FileNode r) s = fn path (Some (name, FileNode r)) None s"
| "walkDir fn path name (BrokenDir e) s =
     (case fn path (Some (name, BrokenDir e)) None s of
        (s1, Some SkipDir) \<Rightarrow> (s1, None)
      | (s1, Some (Other err)) \<Rightarrow> (s1, Some (Other err))
      | (s1, None) \<Rightarrow>
          (case fn path (Some (name, BrokenDir e)) (Some e) s1 of
             (s2, Some SkipDir) \<Rightarrow> (s2, None)
           | (s2, r) \<Rightarrow> (s2, r)))"
| "walkDir fn path name (DirNode dirs) s =
     (case fn path (Some (name, DirNode dirs)) None s of
        (s1, Some SkipDir) \<Rightarrow> (s1, None)
      | (s1, Some (Other err)) \<Rightarrow> (s1, Some (Other err))
      | (s1, None) \<Rightarrow> walkEntries fn path dirs s1)"
| "walkEntries fn path [] s = (s, None)"
| "walkEntries fn path ((name1, d1) # dirs) s =
     (case walkDir fn (path @ ''/'' @ name1) name1 d1 s of
        (s1, None) \<Rightarrow> walkEntries fn path dirs s1
      | (s1, Some SkipDir) \<Rightarrow> (s1, None)
      | (s1, Some (Other err)) \<Rightarrow> (s1, Some (Other err)))"

text \<open>
  \<^verbatim>\<open>filepath.WalkDir(root, fn)\<close>: \<open>lstat\<close> is what \<^verbatim>\<open>os.Lstat(root)\<close>
  returns, an error or the name and the node of the root. An error of the walk other
  than \<^verbatim>\<open>SkipDir\<close> is returned.
\<close>

definition WalkDir ::
  "string \<Rightarrow> error + (string \<times> fsnode) \<Rightarrow> 's WalkDirFunc \<Rightarrow> 's \<Rightarrow> 's \<times> error option" where
  "WalkDir rootPath lstat fn s =
     (case (case lstat of
              Inl err \<Rightarrow> fn rootPath None (Some err) s
            | Inr (name, node) \<Rightarrow> walkDir fn rootPath name node s) of
        (s1, Some (Other err)) \<Rightarrow> (s1, Some err)
      | (s1, _) \<Rightarrow> (s1, None))"

subsection \<open>The walker\<close>

record FileEntry =
  Path :: string
  RelPath :: string
  EntryLanguage :: string
  EntryContent :: string
  SHA256 :: string
  IsDir :: bool

definition supportedExtensions :: "(string, string) gomap" where
  "supportedExtensions =
     [(''.py'', ''python''),
      (''.ts'', ''typescript''),
      (''.tsx'', ''typescript''),
      (''.js'', ''javascript''),
      (''.jsx'', ''javascript''),
      (''.mjs'', ''javascript''),
      (''.cjs'', ''javascript''),
      (''.go'', ''go'')]"

text \<open>
  \<^verbatim>\<open>filepath.Ext\<close>: the suffix from the last dot of the last element of the path,
  empty without a dot. The scan runs from the end.
\<close>

fun ext_scan :: "string \<Rightarrow> string \<Rightarrow> string" where
  "ext_scan [] acc = []"
| "ext_scan (c # cs) acc =
     (if c = CHR ''/'' then []
      else if c = CHR ''.'' then c # acc
      else ext_scan cs (c # acc))"

definition filepath_Ext :: "string \<Rightarrow> string" where
  "filepath_Ext path = ext_scan (rev path) []"

definition isSupportedFile :: "string \<Rightarrow> bool" where
  "isSupportedFile filename =
     (let ext = map toLower (filepath_Ext filename)
      in case map_of supportedExtensions ext of Some _ \<Rightarrow> True | None \<Rightarrow> False)"

definition getLanguage :: "string \<Rightarrow> string" where
  "getLanguage filename =
     (let ext = map toLower (filepath_Ext filename)
      in case map_of supportedExtensions ext of Some l \<Rightarrow> l | None \<Rightarrow> [])"

text \<open>\<^verbatim>\<open>strings.Split(path, "/")\<close>.\<close>

fun split_scan :: "string \<Rightarrow> string \<Rightarrow> string list" where
  "split_scan [] cur = [rev cur]"
| "split_scan (c # cs) cur =
     (if c = CHR ''/'' then rev cur # split_scan cs [] else split_scan cs (c # cur))"

definition splitPath :: "string \<Rightarrow> string list" where
  "splitPath path = split_scan path []"

text \<open>
  \<^verbatim>\<open>filepath.Rel(repoPath, path)\<close> on the paths the walk produces: the root
  itself, or the root followed by a separator and the names below it.
\<close>

definition filepath_Rel :: "string \<Rightarrow> string \<Rightarrow> error + string" where
  "filepath_Rel basepath targpath =
     (if targpath = basepath then Inr ''.''
      else if HasPrefix targpath (basepath @ ''/'')
      then Inr (drop (length basepath + 1) targpath)
      else Inl (Error ''Rel: can't make path relative''))"

text \<open>
  The matcher that \<^verbatim>\<open>gitignore.NewMatcher\<close> builds from the default patterns and
  the loaded ones is a parameter: a predicate on the parts of a relative path and the flag
  that says whether it is a directory.
\<close>

type_synonym Matcher = "string list \<Rightarrow> bool \<Rightarrow> bool"

definition shouldSkipDir :: "string \<Rightarrow> string \<Rightarrow> string \<Rightarrow> Matcher \<Rightarrow> bool" where
  "shouldSkipDir name path repoRoot matcher =
     (if name = ''.git'' then True
      else (case filepath_Rel repoRoot path of
              Inl err \<Rightarrow> False
            | Inr relPath \<Rightarrow> matcher (splitPath relPath) True))"

text \<open>
  The callback of \<^verbatim>\<open>WalkRepo\<close>; its state is the slice \<^verbatim>\<open>entries\<close>. The
  hash function \<open>sum256\<close> (\<^verbatim>\<open>sha256.Sum256\<close> in hexadecimal) is a parameter.
  The last line stands for a nil entry without an error, which
  \<^verbatim>\<open>WalkDir\<close> never passes.
\<close>

definition visit ::
  "Matcher \<Rightarrow> (string \<Rightarrow> string) \<Rightarrow> string \<Rightarrow> FileEntry list WalkDirFunc" where
  "visit matcher sum256 repoPath path d err entries =
     (case err of
        Some e \<Rightarrow> (entries, Some (Other e))
      | None \<Rightarrow>
          (case d of
             Some (name, node) \<Rightarrow>
               if isDirNode node
               then (if shouldSkipDir name path repoPath matcher
                     then (entries, Some SkipDir) else (entries, None))
               else if \<not> isSupportedFile name then (entries, None)
               else
                 (case filepath_Rel repoPath path of
                    Inl e \<Rightarrow> (entries, Some (Other e))
                  | Inr relPath \<Rightarrow>
                      if matcher (splitPath relPath) False then (entries, None)
                      else
                        (case node of
                           FileNode (Inl e) \<Rightarrow> (entries, Some (Other e))
                         | FileNode (Inr content) \<Rightarrow>
                             (entries @
                                [\<lparr>Path = path, RelPath = relPath,
                                  EntryLanguage = getLanguage name, EntryContent = content,
                                  SHA256 = sum256 content, IsDir = False\<rparr>],
                              None)
                         | _ \<Rightarrow> (entries, None)))
           | None \<Rightarrow> (entries, Some (Other (Error ''nil DirEntry'')))))"

definition WalkRepo ::
  "Matcher \<Rightarrow> (string \<Rightarrow> string) \<Rightarrow> error + (string \<times> fsnode) \<Rightarrow> string \<Rightarrow>
   FileEntry list \<times> error option" where
  "WalkRepo matcher sum256 lstat repoPath =
     WalkDir repoPath lstat (visit matcher sum256 repoPath) []"

text \<open>
  A repository \<open>repo\<close> with three Go files, the second of which cannot be read; no
  path is ignored.
\<close>

definition unreadable_repo :: "error + (string \<times> fsnode)" where
  "unreadable_repo =
     Inr (''repo'',
          DirNode [(''a.go'', FileNode (Inr ''package a'')),
                   (''b.go'', FileNode (Inl (Error ''permission denied''))),
                   (''c.go'', FileNode (Inr ''package c''))])"

definition no_ignore :: Matcher where
  "no_ignore parts isDir = False"

section \<open>Properties of the graph\<close>

lemma map_of_delete_in:
  "map_of (delete_in a b mm) a' =
     (if a' = a then map_option (AList.delete b) (map_of mm a) else map_of mm a')"
  by (auto simp: delete_in_def update_conv' split: option.splits)

lemma map_of_store_in:
  "map_of (store_in a b v mm) a' =
     (if a' = a then Some (case map_of mm a of None \<Rightarrow> [(b, v)] | Some m \<Rightarrow> AList.update b v m)
      else map_of mm a')"
  by (auto simp: store_in_def update_conv' split: option.splits)

lemma lookup2_delete_in:
  "lookup2 (delete_in a b mm) a' b' = (if a' = a \<and> b' = b then None else lookup2 mm a' b')"
  by (auto simp: lookup2_def map_of_delete_in delete_conv' split: option.splits)

lemma lookup2_store_in:
  "lookup2 (store_in a b v mm) a' b' = (if a' = a \<and> b' = b then Some v else lookup2 mm a' b')"
  by (auto simp: lookup2_def map_of_store_in update_conv' split: option.splits)

lemma lookup2_delete:
  "lookup2 (AList.delete a mm) a' b' = (if a' = a then None else lookup2 mm a' b')"
  by (auto simp: lookup2_def delete_conv' split: option.splits)

lemma inner_distinct_Nil: "inner_distinct []"
  by (simp add: inner_distinct_def)

lemma set_update_subset: "set (AList.update k v al) \<subseteq> insert (k, v) (set al)"
  by (induction al) auto

lemma inner_distinct_update:
  "inner_distinct mm \<Longrightarrow> distinct (map fst m) \<Longrightarrow> inner_distinct (AList.update a m mm)"
  unfolding inner_distinct_def using set_update_subset[of a m mm]
  by (auto simp: distinct_update)

lemma inner_distinct_delete: "inner_distinct mm \<Longrightarrow> inner_distinct (AList.delete a mm)"
proof -
  assume a: "inner_distinct mm"
  have "set (AList.delete a mm) \<subseteq> set mm" by (auto simp: AList.delete_eq)
  with a show ?thesis unfolding inner_distinct_def by (auto intro: distinct_delete)
qed

lemma inner_distinct_lookup:
  "inner_distinct mm \<Longrightarrow> map_of mm a = Some m \<Longrightarrow> distinct (map fst m)"
  unfolding inner_distinct_def by (auto dest!: map_of_SomeD)

lemma inner_distinct_delete_in: "inner_distinct mm \<Longrightarrow> inner_distinct (delete_in a b mm)"
  by (auto simp: delete_in_def split: option.splits
           intro!: inner_distinct_update distinct_delete dest: inner_distinct_lookup)

lemma inner_distinct_store_in: "inner_distinct mm \<Longrightarrow> inner_distinct (store_in a b v mm)"
  by (auto simp: store_in_def split: option.splits
           intro!: inner_distinct_update distinct_update dest: inner_distinct_lookup)

lemma fold_out_relationships:
  "map_of (relationships (fold cascade_out_step xs g)) rid =
     (if rid \<in> (\<lambda>kr. RID (snd kr)) ` set xs then None else map_of (relationships g) rid)"
  by (induction xs arbitrary: g) (auto simp: cascade_out_step_def Let_def delete_conv')

lemma fold_out_byRelType:
  "lookup2 (byRelType (fold cascade_out_step xs g)) ty rid =
     (if \<exists>kr \<in> set xs. Type (snd kr) = ty \<and> RID (snd kr) = rid then None
      else lookup2 (byRelType g) ty rid)"
  by (induction xs arbitrary: g) (auto simp: cascade_out_step_def Let_def lookup2_delete_in)

lemma fold_out_incoming:
  "lookup2 (incoming (fold cascade_out_step xs g)) t rid =
     (if \<exists>kr \<in> set xs. Target (snd kr) = t \<and> RID (snd kr) = rid then None
      else lookup2 (incoming g) t rid)"
  by (induction xs arbitrary: g) (auto simp: cascade_out_step_def Let_def lookup2_delete_in)

lemma fold_out_frame:
  "outgoing (fold cascade_out_step xs g) = outgoing g \<and>
   nodes (fold cascade_out_step xs g) = nodes g \<and>
   byLabel (fold cascade_out_step xs g) = byLabel g"
  by (induction xs arbitrary: g) (auto simp: cascade_out_step_def Let_def)

lemma fold_out_distinct:
  "distinct (map fst (relationships g)) \<Longrightarrow> inner_distinct (incoming g) \<Longrightarrow>
   inner_distinct (byRelType g) \<Longrightarrow>
   distinct (map fst (relationships (fold cascade_out_step xs g))) \<and>
   inner_distinct (incoming (fold cascade_out_step xs g)) \<and>
   inner_distinct (byRelType (fold cascade_out_step xs g))"
  by (induction xs arbitrary: g)
     (auto simp: cascade_out_step_def Let_def distinct_delete inner_distinct_delete_in)

lemma fold_in_relationships:
  "map_of (relationships (fold cascade_in_step xs g)) rid =
     (if rid \<in> (\<lambda>kr. RID (snd kr)) ` set xs then None else map_of (relationships g) rid)"
  by (induction xs arbitrary: g) (auto simp: cascade_in_step_def Let_def delete_conv')

lemma fold_in_byRelType:
  "lookup2 (byRelType (fold cascade_in_step xs g)) ty rid =
     (if \<exists>kr \<in> set xs. Type (snd kr) = ty \<and> RID (snd kr) = rid then None
      else lookup2 (byRelType g) ty rid)"
  by (induction xs arbitrary: g) (auto simp: cascade_in_step_def Let_def lookup2_delete_in)

lemma fold_in_outgoing:
  "lookup2 (outgoing (fold cascade_in_step xs g)) s rid =
     (if \<exists>kr \<in> set xs. Source (snd kr) = s \<and> RID (snd kr) = rid then None
      else lookup2 (outgoing g) s rid)"
  by (induction xs arbitrary: g) (auto simp: cascade_in_step_def Let_def lookup2_delete_in)

lemma fold_in_frame:
  "incoming (fold cascade_in_step xs g) = incoming g \<and>
   nodes (fold cascade_in_step xs g) = nodes g \<and>
   byLabel (fold cascade_in_step xs g) = byLabel g"
  by (induction xs arbitrary: g) (auto simp: cascade_in_step_def Let_def)

lemma fold_in_distinct:
  "distinct (map fst (relationships g)) \<Longrightarrow> inner_distinct (outgoing g) \<Longrightarrow>
   inner_distinct (byRelType g) \<Longrightarrow>
   distinct (map fst (relationships (fold cascade_in_step xs g))) \<and>
   inner_distinct (outgoing (fold cascade_in_step xs g)) \<and>
   inner_distinct (byRelType (fold cascade_in_step xs g))"
  by (induction xs arbitrary: g)
     (auto simp: cascade_in_step_def Let_def distinct_delete inner_distinct_delete_in)

lemma cascade_halves:
  "cascadeRelationshipsForNode g v = cascade_in_half (cascade_out_half g v) v"
  by (simp add: cascadeRelationshipsForNode_def cascade_in_half_def cascade_out_half_def Let_def)

lemma filt_simps [simp]:
  "filt P None = None" "filt P (Some r) = (if P r then Some r else None)"
  by (simp_all add: filt_def)

lemma ic_out:
  "index_consistent g \<Longrightarrow>
   lookup2 (outgoing g) s rid = filt (\<lambda>r. Source r = s) (map_of (relationships g) rid)"
  by (simp add: index_consistent_def)

lemma ic_in:
  "index_consistent g \<Longrightarrow>
   lookup2 (incoming g) t rid = filt (\<lambda>r. Target r = t) (map_of (relationships g) rid)"
  by (simp add: index_consistent_def)

lemma ic_type:
  "index_consistent g \<Longrightarrow>
   lookup2 (byRelType g) ty rid = filt (\<lambda>r. Type r = ty) (map_of (relationships g) rid)"
  by (simp add: index_consistent_def)

lemma ic_id: "index_consistent g \<Longrightarrow> map_of (relationships g) rid = Some r \<Longrightarrow> RID r = rid"
  by (simp add: index_consistent_def)

lemma ic_distinct:
  "index_consistent g \<Longrightarrow>
   distinct (map fst (relationships g)) \<and> inner_distinct (outgoing g) \<and>
   inner_distinct (incoming g) \<and> inner_distinct (byRelType g)"
  by (simp add: index_consistent_def)

lemma out_row_mem:
  assumes "index_consistent g" "map_of (outgoing g) v = Some m"
  shows "(k, r) \<in> set m \<longleftrightarrow> map_of (relationships g) k = Some r \<and> Source r = v"
proof -
  have dm: "distinct (map fst m)"
    using ic_distinct[OF assms(1)] assms(2) by (blast dest: inner_distinct_lookup)
  have "map_of m k = filt (\<lambda>r. Source r = v) (map_of (relationships g) k)"
    using ic_out[OF assms(1), of v k] assms(2) by (simp add: lookup2_def)
  moreover have "(k, r) \<in> set m \<longleftrightarrow> map_of m k = Some r"
    using dm by simp
  ultimately show ?thesis
    by (cases "map_of (relationships g) k") auto
qed

lemma out_row_None:
  assumes "index_consistent g" "map_of (outgoing g) v = None"
  shows "map_of (relationships g) k = Some r \<Longrightarrow> Source r \<noteq> v"
proof
  assume a: "map_of (relationships g) k = Some r" "Source r = v"
  have "lookup2 (outgoing g) v k = None" using assms(2) by (simp add: lookup2_def)
  with ic_out[OF assms(1), of v k] a show False by simp
qed

lemma cascade_out_half_relationships:
  assumes "index_consistent g"
  shows "map_of (relationships (cascade_out_half g v)) rid =
           filt (\<lambda>r. Source r \<noteq> v) (map_of (relationships g) rid)"
proof (cases "map_of (outgoing g) v")
  case None
  show ?thesis using out_row_None[OF assms None, of rid] None
    by (cases "map_of (relationships g) rid") (simp_all add: cascade_out_half_def)
next
  case (Some m)
  have "rid \<in> (\<lambda>kr. RID (snd kr)) ` set m \<longleftrightarrow>
          (\<exists>r. map_of (relationships g) rid = Some r \<and> Source r = v)" (is "?L \<longleftrightarrow> ?R")
  proof
    assume ?L
    then obtain k r where kr: "(k, r) \<in> set m" "RID r = rid" by auto
    from kr(1) have "map_of (relationships g) k = Some r \<and> Source r = v"
      using out_row_mem[OF assms Some] by simp
    moreover from this have "RID r = k" using ic_id[OF assms] by blast
    ultimately show ?R using kr(2) by auto
  next
    assume ?R
    then obtain r where r: "map_of (relationships g) rid = Some r" "Source r = v" by auto
    then have "(rid, r) \<in> set m" using out_row_mem[OF assms Some] by simp
    moreover have "RID r = rid" using ic_id[OF assms r(1)] .
    ultimately show ?L by force
  qed
  then show ?thesis using Some
    by (cases "map_of (relationships g) rid")
       (auto simp: cascade_out_half_def Let_def fold_out_relationships)
qed

lemma out_row_ex:
  assumes "index_consistent g" "map_of (outgoing g) v = Some m"
  shows "(\<exists>kr \<in> set m. F (snd kr) \<and> RID (snd kr) = rid) \<longleftrightarrow>
         (\<exists>r. map_of (relationships g) rid = Some r \<and> Source r = v \<and> F r)" (is "?L \<longleftrightarrow> ?R")
proof
  assume ?L
  then obtain k r where kr: "(k, r) \<in> set m" "F r" "RID r = rid" by auto
  from kr(1) have a: "map_of (relationships g) k = Some r \<and> Source r = v"
    using out_row_mem[OF assms] by simp
  then have "RID r = k" using ic_id[OF assms(1)] by blast
  with a kr show ?R by auto
next
  assume ?R
  then obtain r where r: "map_of (relationships g) rid = Some r" "Source r = v" "F r" by auto
  then have "(rid, r) \<in> set m" using out_row_mem[OF assms] by simp
  moreover have "RID r = rid" using ic_id[OF assms(1) r(1)] .
  ultimately show ?L using r(3) by force
qed

lemma cascade_out_half_consistent:
  assumes "index_consistent g"
  shows "index_consistent (cascade_out_half g v)"
proof (cases "map_of (outgoing g) v")
  case None
  then show ?thesis using assms by (simp add: cascade_out_half_def)
next
  case (Some m)
  let ?g' = "fold cascade_out_step m g"
  have eq: "cascade_out_half g v = ?g'\<lparr>outgoing := AList.delete v (outgoing g)\<rparr>"
    using Some fold_out_frame[of m g] by (simp add: cascade_out_half_def Let_def)
  have R: "\<And>rid. map_of (relationships ?g') rid =
             filt (\<lambda>r. Source r \<noteq> v) (map_of (relationships g) rid)"
    using cascade_out_half_relationships[OF assms, of v] by (simp add: eq)
  have d: "distinct (map fst (relationships ?g')) \<and> inner_distinct (incoming ?g') \<and>
           inner_distinct (byRelType ?g')"
    using fold_out_distinct[of g m] ic_distinct[OF assms] by simp
  have d2: "inner_distinct (AList.delete v (outgoing g))"
    using ic_distinct[OF assms] by (simp add: inner_distinct_delete)
  have ids: "\<And>rid r. map_of (relationships ?g') rid = Some r \<Longrightarrow> RID r = rid"
    using ic_id[OF assms] by (auto simp: R filt_def split: option.splits if_splits)
  have O: "\<And>s rid. lookup2 (AList.delete v (outgoing g)) s rid =
             filt (\<lambda>r. Source r = s) (map_of (relationships ?g') rid)"
    using ic_out[OF assms] by (auto simp: R lookup2_delete filt_def split: option.splits)
  have I: "lookup2 (incoming ?g') t rid =
             filt (\<lambda>r. Target r = t) (map_of (relationships ?g') rid)" for t rid
    using ic_in[OF assms, of t rid] out_row_ex[OF assms Some, of "\<lambda>r. Target r = t" rid]
    by (cases "map_of (relationships g) rid") (auto simp: R fold_out_incoming)
  have T: "lookup2 (byRelType ?g') ty rid =
             filt (\<lambda>r. Type r = ty) (map_of (relationships ?g') rid)" for ty rid
    using ic_type[OF assms, of ty rid] out_row_ex[OF assms Some, of "\<lambda>r. Type r = ty" rid]
    by (cases "map_of (relationships g) rid") (auto simp: R fold_out_byRelType)
  show ?thesis
    unfolding eq index_consistent_def using d d2 ids O I T by simp
qed

lemma in_row_mem:
  assumes "index_consistent g" "map_of (incoming g) v = Some m"
  shows "(k, r) \<in> set m \<longleftrightarrow> map_of (relationships g) k = Some r \<and> Target r = v"
proof -
  have dm: "distinct (map fst m)"
    using ic_distinct[OF assms(1)] assms(2) by (blast dest: inner_distinct_lookup)
  have "map_of m k = filt (\<lambda>r. Target r = v) (map_of (relationships g) k)"
    using ic_in[OF assms(1), of v k] assms(2) by (simp add: lookup2_def)
  moreover have "(k, r) \<in> set m \<longleftrightarrow> map_of m k = Some r"
    using dm by simp
  ultimately show ?thesis
    by (cases "map_of (relationships g) k") auto
qed

lemma in_row_None:
  assumes "index_consistent g" "map_of (incoming g) v = None"
  shows "map_of (relationships g) k = Some r \<Longrightarrow> Target r \<noteq> v"
proof
  assume a: "map_of (relationships g) k = Some r" "Target r = v"
  have "lookup2 (incoming g) v k = None" using assms(2) by (simp add: lookup2_def)
  with ic_in[OF assms(1), of v k] a show False by simp
qed

lemma in_row_ex:
  assumes "index_consistent g" "map_of (incoming g) v = Some m"
  shows "(\<exists>kr \<in> set m. F (snd kr) \<and> RID (snd kr) = rid) \<longleftrightarrow>
         (\<exists>r. map_of (relationships g) rid = Some r \<and> Target r = v \<and> F r)" (is "?L \<longleftrightarrow> ?R")
proof
  assume ?L
  then obtain k r where kr: "(k, r) \<in> set m" "F r" "RID r = rid" by auto
  from kr(1) have a: "map_of (relationships g) k = Some r \<and> Target r = v"
    using in_row_mem[OF assms] by simp
  then have "RID r = k" using ic_id[OF assms(1)] by blast
  with a kr show ?R by auto
next
  assume ?R
  then obtain r where r: "map_of (relationships g) rid = Some r" "Target r = v" "F r" by auto
  then have "(rid, r) \<in> set m" using in_row_mem[OF assms] by simp
  moreover have "RID r = rid" using ic_id[OF assms(1) r(1)] .
  ultimately show ?L using r(3) by force
qed

lemma cascade_in_half_relationships:
  assumes "index_consistent g"
  shows "map_of (relationships (cascade_in_half g v)) rid =
           filt (\<lambda>r. Target r \<noteq> v) (map_of (relationships g) rid)"
proof (cases "map_of (incoming g) v")
  case None
  show ?thesis using in_row_None[OF assms None, of rid] None
    by (cases "map_of (relationships g) rid") (simp_all add: cascade_in_half_def)
next
  case (Some m)
  have "rid \<in> (\<lambda>kr. RID (snd kr)) ` set m \<longleftrightarrow>
          (\<exists>r. map_of (relationships g) rid = Some r \<and> Target r = v)"
    using in_row_ex[OF assms Some, of "\<lambda>r. True" rid] by auto
  then show ?thesis using Some
    by (cases "map_of (relationships g) rid")
       (auto simp: cascade_in_half_def Let_def fold_in_relationships)
qed

lemma cascade_in_half_consistent:
  assumes "index_consistent g"
  shows "index_consistent (cascade_in_half g v)"
proof (cases "map_of (incoming g) v")
  case None
  then show ?thesis using assms by (simp add: cascade_in_half_def)
next
  case (Some m)
  let ?g' = "fold cascade_in_step m g"
  have eq: "cascade_in_half g v = ?g'\<lparr>incoming := AList.delete v (incoming g)\<rparr>"
    using Some fold_in_frame[of m g] by (simp add: cascade_in_half_def Let_def)
  have R: "\<And>rid. map_of (relationships ?g') rid =
             filt (\<lambda>r. Target r \<noteq> v) (map_of (relationships g) rid)"
    using cascade_in_half_relationships[OF assms, of v] by (simp add: eq)
  have d: "distinct (map fst (relationships ?g')) \<and> inner_distinct (outgoing ?g') \<and>
           inner_distinct (byRelType ?g')"
    using fold_in_distinct[of g m] ic_distinct[OF assms] by simp
  have d2: "inner_distinct (AList.delete v (incoming g))"
    using ic_distinct[OF assms] by (simp add: inner_distinct_delete)
  have ids: "\<And>rid r. map_of (relationships ?g') rid = Some r \<Longrightarrow> RID r = rid"
    using ic_id[OF assms] by (auto simp: R filt_def split: option.splits if_splits)
  have I: "\<And>s rid. lookup2 (AList.delete v (incoming g)) s rid =
             filt (\<lambda>r. Target r = s) (map_of (relationships ?g') rid)"
    using ic_in[OF assms] by (auto simp: R lookup2_delete filt_def split: option.splits)
  have O: "lookup2 (outgoing ?g') s rid =
             filt (\<lambda>r. Source r = s) (map_of (relationships ?g') rid)" for s rid
    using ic_out[OF assms, of s rid] in_row_ex[OF assms Some, of "\<lambda>r. Source r = s" rid]
    by (cases "map_of (relationships g) rid") (auto simp: R fold_in_outgoing)
  have T: "lookup2 (byRelType ?g') ty rid =
             filt (\<lambda>r. Type r = ty) (map_of (relationships ?g') rid)" for ty rid
    using ic_type[OF assms, of ty rid] in_row_ex[OF assms Some, of "\<lambda>r. Type r = ty" rid]
    by (cases "map_of (relationships g) rid") (auto simp: R fold_in_byRelType)
  show ?thesis
    unfolding eq index_consistent_def using d d2 ids O I T by simp
qed

lemma cascade_consistent:
  "index_consistent g \<Longrightarrow> index_consistent (cascadeRelationshipsForNode g v)"
  by (simp add: cascade_halves cascade_in_half_consistent cascade_out_half_consistent)

lemma cascade_relationships:
  assumes "index_consistent g"
  shows "map_of (relationships (cascadeRelationshipsForNode g v)) rid =
           filt (\<lambda>r. Source r \<noteq> v \<and> Target r \<noteq> v) (map_of (relationships g) rid)"
  using cascade_in_half_relationships[OF cascade_out_half_consistent[OF assms], of v v rid]
        cascade_out_half_relationships[OF assms, of v rid]
  by (cases "map_of (relationships g) rid") (auto simp: cascade_halves)

lemma index_consistent_nodes_upd:
  "index_consistent (g\<lparr>nodes := n, byLabel := b\<rparr>) = index_consistent g"
  by (simp add: index_consistent_def)

lemma New_consistent: "index_consistent NewKnowledgeGraph"
  by (simp add: index_consistent_def NewKnowledgeGraph_def inner_distinct_def lookup2_def)

lemma AddNode_consistent: "index_consistent g \<Longrightarrow> index_consistent (AddNode g n)"
  by (simp add: AddNode_def Let_def index_consistent_def)

lemma RemoveNode_consistent: "index_consistent g \<Longrightarrow> index_consistent (fst (RemoveNode g v))"
  by (auto simp: RemoveNode_def index_consistent_nodes_upd split: option.splits
           intro!: cascade_consistent)

lemma fold_cascade_consistent:
  "index_consistent g \<Longrightarrow> index_consistent (fold (\<lambda>k h. cascadeRelationshipsForNode h k) ks g)"
  by (induction ks arbitrary: g) (auto intro: cascade_consistent)

lemma fold_remove_nodes_consistent:
  "index_consistent g \<Longrightarrow>
   index_consistent (fold (\<lambda>k h.
      (case map_of (nodes h) k of
         None \<Rightarrow> h
       | Some node \<Rightarrow>
           h\<lparr>nodes := AList.delete k (nodes h),
             byLabel := delete_in (Label node) k (byLabel h)\<rparr>)) ks g)"
  by (induction ks arbitrary: g) (auto simp: index_consistent_nodes_upd split: option.splits)

lemma RemoveNodesByFile_consistent:
  "index_consistent g \<Longrightarrow> index_consistent (fst (RemoveNodesByFile g p))"
  by (auto simp: RemoveNodesByFile_def Let_def
           intro!: fold_cascade_consistent fold_remove_nodes_consistent)

lemma AddRelationship_consistent:
  assumes "index_consistent g"
  shows "index_consistent (AddRelationship g rel)"
proof -
  note d = ic_distinct[OF assms]
  show ?thesis
  proof (cases "map_of (relationships g) (RID rel)")
    case None
    have O: "lookup2 (store_in (Source rel) (RID rel) rel (outgoing g)) s rid =
             filt (\<lambda>r. Source r = s) (((map_of (relationships g))(RID rel \<mapsto> rel)) rid)" for s rid
      using ic_out[OF assms, of s rid] None by (auto simp: lookup2_store_in)
    have I: "lookup2 (store_in (Target rel) (RID rel) rel (incoming g)) s rid =
             filt (\<lambda>r. Target r = s) (((map_of (relationships g))(RID rel \<mapsto> rel)) rid)" for s rid
      using ic_in[OF assms, of s rid] None by (auto simp: lookup2_store_in)
    have T: "lookup2 (store_in (Type rel) (RID rel) rel (byRelType g)) s rid =
             filt (\<lambda>r. Type r = s) (((map_of (relationships g))(RID rel \<mapsto> rel)) rid)" for s rid
      using ic_type[OF assms, of s rid] None by (auto simp: lookup2_store_in)
    show ?thesis
      using None d ic_id[OF assms] O I T
      by (simp add: AddRelationship_def Let_def index_consistent_def update_conv'
                    distinct_update inner_distinct_store_in)
  next
    case (Some old)
    have O: "lookup2 (store_in (Source rel) (RID rel) rel
                (delete_in (Source old) (RID rel) (outgoing g))) s rid =
             filt (\<lambda>r. Source r = s) (((map_of (relationships g))(RID rel \<mapsto> rel)) rid)" for s rid
      using ic_out[OF assms, of s rid] Some by (auto simp: lookup2_store_in lookup2_delete_in)
    have I: "lookup2 (store_in (Target rel) (RID rel) rel
                (delete_in (Target old) (RID rel) (incoming g))) s rid =
             filt (\<lambda>r. Target r = s) (((map_of (relationships g))(RID rel \<mapsto> rel)) rid)" for s rid
      using ic_in[OF assms, of s rid] Some by (auto simp: lookup2_store_in lookup2_delete_in)
    have T: "lookup2 (store_in (Type rel) (RID rel) rel
                (delete_in (Type old) (RID rel) (byRelType g))) s rid =
             filt (\<lambda>r. Type r = s) (((map_of (relationships g))(RID rel \<mapsto> rel)) rid)" for s rid
      using ic_type[OF assms, of s rid] Some by (auto simp: lookup2_store_in lookup2_delete_in)
    show ?thesis
      using Some d ic_id[OF assms] O I T
      by (simp add: AddRelationship_def Let_def index_consistent_def update_conv'
                    distinct_update inner_distinct_store_in inner_distinct_delete_in)
  qed
qed

lemma reachable_consistent: "reachable g \<Longrightarrow> index_consistent g"
  by (induction rule: reachable.induct)
     (simp_all add: New_consistent AddNode_consistent AddRelationship_consistent
                    RemoveNode_consistent RemoveNodesByFile_consistent)

lemma index_mentions_lookup2:
  assumes "inner_distinct mm"
  shows "index_mentions v mm \<longleftrightarrow> (\<exists>a b r. lookup2 mm a b = Some r \<and> mentions v r)"
proof
  assume "index_mentions v mm"
  then obtain a m b r where x: "(a, m) \<in> set mm" "(b, r) \<in> set m" "mentions v r"
    unfolding index_mentions_def by force
  from assms x(1) have "map_of mm a = Some m" unfolding inner_distinct_def by simp
  moreover from assms x(1) have "distinct (map fst m)" unfolding inner_distinct_def by force
  with x(2) have "map_of m b = Some r" by simp
  ultimately have "lookup2 mm a b = Some r" by (simp add: lookup2_def)
  with x(3) show "\<exists>a b r. lookup2 mm a b = Some r \<and> mentions v r" by blast
next
  assume "\<exists>a b r. lookup2 mm a b = Some r \<and> mentions v r"
  then obtain a b r where x: "lookup2 mm a b = Some r" "mentions v r" by blast
  then obtain m where m: "map_of mm a = Some m" "map_of m b = Some r"
    by (auto simp: lookup2_def split: option.splits)
  then have "(a, m) \<in> set mm" "(b, r) \<in> set m" by (auto dest: map_of_SomeD)
  with x(2) show "index_mentions v mm" unfolding index_mentions_def by force
qed

lemma consistent_graph_mentions:
  assumes "index_consistent g"
  shows "graph_mentions v g \<longleftrightarrow> (\<exists>rid r. map_of (relationships g) rid = Some r \<and> mentions v r)"
proof -
  note d = ic_distinct[OF assms]
  have R: "(\<exists>r \<in> snd ` set (relationships g). mentions v r) \<longleftrightarrow>
           (\<exists>rid r. map_of (relationships g) rid = Some r \<and> mentions v r)"
  proof
    assume "\<exists>r \<in> snd ` set (relationships g). mentions v r"
    then obtain rid r where "(rid, r) \<in> set (relationships g)" "mentions v r" by force
    moreover from this d have "map_of (relationships g) rid = Some r" by simp
    ultimately show "\<exists>rid r. map_of (relationships g) rid = Some r \<and> mentions v r" by blast
  next
    assume "\<exists>rid r. map_of (relationships g) rid = Some r \<and> mentions v r"
    then obtain rid r where x: "map_of (relationships g) rid = Some r" "mentions v r" by blast
    from x(1) have "(rid, r) \<in> set (relationships g)" by (rule map_of_SomeD)
    with x(2) show "\<exists>r \<in> snd ` set (relationships g). mentions v r" by force
  qed
  have O: "index_mentions v (outgoing g) \<Longrightarrow>
           (\<exists>rid r. map_of (relationships g) rid = Some r \<and> mentions v r)"
  proof -
    assume "index_mentions v (outgoing g)"
    then obtain a b r where x: "lookup2 (outgoing g) a b = Some r" "mentions v r"
      using d by (auto simp: index_mentions_lookup2)
    from x(1) have "map_of (relationships g) b = Some r"
      using ic_out[OF assms, of a b] by (cases "map_of (relationships g) b") (auto split: if_splits)
    with x(2) show ?thesis by blast
  qed
  have I: "index_mentions v (incoming g) \<Longrightarrow>
           (\<exists>rid r. map_of (relationships g) rid = Some r \<and> mentions v r)"
  proof -
    assume "index_mentions v (incoming g)"
    then obtain a b r where x: "lookup2 (incoming g) a b = Some r" "mentions v r"
      using d by (auto simp: index_mentions_lookup2)
    from x(1) have "map_of (relationships g) b = Some r"
      using ic_in[OF assms, of a b] by (cases "map_of (relationships g) b") (auto split: if_splits)
    with x(2) show ?thesis by blast
  qed
  have T: "index_mentions v (byRelType g) \<Longrightarrow>
           (\<exists>rid r. map_of (relationships g) rid = Some r \<and> mentions v r)"
  proof -
    assume "index_mentions v (byRelType g)"
    then obtain a b r where x: "lookup2 (byRelType g) a b = Some r" "mentions v r"
      using d by (auto simp: index_mentions_lookup2)
    from x(1) have "map_of (relationships g) b = Some r"
      using ic_type[OF assms, of a b] by (cases "map_of (relationships g) b") (auto split: if_splits)
    with x(2) show ?thesis by blast
  qed
  show ?thesis unfolding graph_mentions_def using R O I T by blast
qed

lemma RemoveNode_absent: "GetNode g v = None \<Longrightarrow> RemoveNode g v = (g, False)"
  by (simp add: GetNode_def RemoveNode_def)

lemma RemoveNode_present:
  assumes "reachable g" and "GetNode g v \<noteq> None"
  shows "snd (RemoveNode g v) \<and> \<not> graph_mentions v (fst (RemoveNode g v))"
proof -
  from assms(2) obtain node where node: "map_of (nodes g) v = Some node"
    by (auto simp: GetNode_def)
  let ?g0 = "g\<lparr>nodes := AList.delete v (nodes g),
               byLabel := delete_in (Label node) v (byLabel g)\<rparr>"
  have c0: "index_consistent ?g0"
    using reachable_consistent[OF assms(1)] by (simp add: index_consistent_nodes_upd)
  have eq: "RemoveNode g v = (cascadeRelationshipsForNode ?g0 v, True)"
    using node by (simp add: RemoveNode_def)
  have "\<not> (\<exists>rid r. map_of (relationships (cascadeRelationshipsForNode ?g0 v)) rid = Some r
              \<and> mentions v r)"
  proof
    assume "\<exists>rid r. map_of (relationships (cascadeRelationshipsForNode ?g0 v)) rid = Some r
              \<and> mentions v r"
    then obtain rid r where x:
      "map_of (relationships (cascadeRelationshipsForNode ?g0 v)) rid = Some r" "mentions v r"
      by blast
    from x(1) have "Source r \<noteq> v \<and> Target r \<noteq> v"
      unfolding cascade_relationships[OF c0]
      by (cases "map_of (relationships ?g0) rid") (auto split: if_splits)
    with x(2) show False by (simp add: mentions_def)
  qed
  then have "\<not> graph_mentions v (cascadeRelationshipsForNode ?g0 v)"
    using consistent_graph_mentions[OF cascade_consistent[OF c0]] by simp
  then show ?thesis by (simp add: eq)
qed

text \<open>
  C2 (cascade), as the code has it, for every graph built through the API and every node
  ID \<open>v\<close>. When \<open>v\<close> is a node, \<^const>\<open>RemoveNode\<close> returns \<open>True\<close> and
  afterwards no relationship with source or target \<open>v\<close> is left in the primary map,
  the type index or either adjacency index. When \<open>v\<close> is not a node, it returns
  \<open>False\<close> and the graph is as it was.
\<close>

theorem RemoveNode_cascade:
  assumes "reachable g"
  shows "(GetNode g v \<noteq> None \<longrightarrow>
            snd (RemoveNode g v) \<and> \<not> graph_mentions v (fst (RemoveNode g v))) \<and>
         (GetNode g v = None \<longrightarrow> RemoveNode g v = (g, False))"
  using RemoveNode_present[OF assms] RemoveNode_absent by blast

text \<open>
  The claim for every node ID fails: a relationship may name endpoints that are not
  nodes (the test suite adds such relationships), and for those \<^const>\<open>RemoveNode\<close>
  does nothing.
\<close>

theorem RemoveNode_cascade_counterexample:
  "reachable dangling_graph \<and> \<not> snd (RemoveNode dangling_graph ''node1'') \<and>
   graph_mentions ''node1'' (fst (RemoveNode dangling_graph ''node1''))"
proof -
  have "reachable dangling_graph"
    unfolding dangling_graph_def by (intro reachable.intros)
  moreover have "RemoveNode dangling_graph ''node1'' = (dangling_graph, False)"
    by (simp add: dangling_graph_def RemoveNode_def AddRelationship_def NewKnowledgeGraph_def
                  Let_def)
  moreover have "graph_mentions ''node1'' dangling_graph"
    by (simp add: dangling_graph_def graph_mentions_def mentions_def AddRelationship_def
                  NewKnowledgeGraph_def Let_def mkRel_def store_in_def)
  ultimately show ?thesis by simp
qed

theorem RemoveNode_cascade_witness:
  "reachable two_node_graph \<and> GetNode two_node_graph ''function:a.py:foo'' \<noteq> None \<and>
   snd (RemoveNode two_node_graph ''function:a.py:foo'') \<and>
   \<not> graph_mentions ''function:a.py:foo'' (fst (RemoveNode two_node_graph ''function:a.py:foo'')) \<and>
   GetNode two_node_graph ''function:c.py:baz'' = None \<and>
   RemoveNode two_node_graph ''function:c.py:baz'' = (two_node_graph, False)"
proof -
  have r: "reachable two_node_graph"
    unfolding two_node_graph_def by (intro reachable.intros)
  have n: "GetNode two_node_graph ''function:a.py:foo'' \<noteq> None"
    by (simp add: two_node_graph_def GetNode_def AddRelationship_def AddNode_def
                  NewKnowledgeGraph_def Let_def mkNode_def)
  have m: "GetNode two_node_graph ''function:c.py:baz'' = None"
    by (simp add: two_node_graph_def GetNode_def AddRelationship_def AddNode_def
                  NewKnowledgeGraph_def Let_def mkNode_def)
  from RemoveNode_cascade[OF r, of "''function:a.py:foo''"]
       RemoveNode_cascade[OF r, of "''function:c.py:baz''"] r n m
  show ?thesis by blast
qed

section \<open>Properties of dead-code detection\<close>

subsection \<open>Every pass only rewrites flags and properties\<close>

lemma static_eq_refl: "static_eq n n"
  by (simp add: static_eq_def)

lemma static_eq_trans: "static_eq a b \<Longrightarrow> static_eq b c \<Longrightarrow> static_eq a c"
  unfolding static_eq_def by (cases a; cases b; cases c) simp

lemma static_eq_fields:
  "static_eq n n' \<Longrightarrow>
   ID n' = ID n \<and> Label n' = Label n \<and> Name n' = Name n \<and> FilePath n' = FilePath n \<and>
   ClassName n' = ClassName n \<and> IsEntryPoint n' = IsEntryPoint n \<and> IsExported n' = IsExported n"
  unfolding static_eq_def by (cases n; cases n') simp

lemma static_eq_IsDead: "static_eq n (n\<lparr>IsDead := b\<rparr>)"
  by (simp add: static_eq_def)

lemma node_rel_refl: "node_rel dec x x"
  by (simp add: node_rel_def static_eq_refl)

lemma node_rel_trans: "node_rel dec x y \<Longrightarrow> node_rel dec y z \<Longrightarrow> node_rel dec x z"
  by (auto simp: node_rel_def intro: static_eq_trans)

lemma evolves_refl: "evolves dec g g"
  by (simp add: evolves_def list_all2_refl node_rel_refl)

lemma evolves_trans: "evolves dec g g' \<Longrightarrow> evolves dec g' g'' \<Longrightarrow> evolves dec g g''"
proof -
  assume a: "evolves dec g g'" and b: "evolves dec g' g''"
  have "list_all2 (node_rel dec) (nodes g) (nodes g'')"
    by (rule list_all2_trans[where ?P1.0 = "node_rel dec" and ?P2.0 = "node_rel dec"
                               and bs = "nodes g'"])
       (use a b in \<open>auto simp: evolves_def intro: node_rel_trans\<close>)
  with a b show ?thesis by (simp add: evolves_def)
qed

lemma evolves_weaken: "evolves True g g' \<Longrightarrow> evolves dec g g'"
  unfolding evolves_def by (auto simp: node_rel_def elim!: list_all2_mono)

lemma list_all2_map_entry:
  assumes "\<And>n. R (k, n) (k, f n)" and "\<And>x. R x x"
  shows "list_all2 R xs (AList.map_entry k f xs)"
  using assms by (induction xs) (auto simp: list_all2_refl)

lemma evolves_modifyNode:
  assumes "\<And>n. static_eq n (f n) \<and> (dec \<longrightarrow> IsDead (f n) \<longrightarrow> IsDead n)"
  shows "evolves dec g (modifyNode k f g)"
  unfolding evolves_def modifyNode_def
  using assms by (auto intro!: list_all2_map_entry simp: node_rel_def static_eq_refl)

lemma evolves_fold:
  assumes "\<And>x h. evolves dec h (stepf x h)"
  shows "evolves dec g (fold stepf xs g)"
proof (induction xs arbitrary: g)
  case Nil
  show ?case by (simp add: evolves_refl)
next
  case (Cons x xs)
  show ?case using evolves_trans[OF assms[of g x] Cons[of "stepf x g"]] by simp
qed

lemma evolves_forNodes:
  assumes "\<And>k n h. evolves dec h (body k n h)"
  shows "evolves dec g (forNodes g body)"
  unfolding forNodes_def
  by (rule evolves_fold) (auto split: option.splits simp: evolves_refl assms)

lemma evolves_lookup:
  assumes "evolves dec g g'" "map_of (nodes g) k = Some n"
  shows "\<exists>n'. map_of (nodes g') k = Some n' \<and> static_eq n n' \<and> (dec \<longrightarrow> IsDead n' \<longrightarrow> IsDead n)"
proof -
  from assms(1) have "list_all2 (node_rel dec) (nodes g) (nodes g')" by (simp add: evolves_def)
  then show ?thesis using assms(2)
    by (induction rule: list_all2_induct) (auto simp: node_rel_def split: if_splits)
qed

lemma evolves_lookup_None:
  assumes "evolves dec g g'" "map_of (nodes g) k = None"
  shows "map_of (nodes g') k = None"
proof -
  from assms(1) have "list_all2 (node_rel dec) (nodes g) (nodes g')" by (simp add: evolves_def)
  then show ?thesis using assms(2)
    by (induction rule: list_all2_induct) (auto simp: node_rel_def split: if_splits)
qed

lemma evolves_keys: "evolves dec g g' \<Longrightarrow> IterNodes g' = IterNodes g"
proof -
  assume "evolves dec g g'"
  then have "list_all2 (node_rel dec) (nodes g) (nodes g')" by (simp add: evolves_def)
  then show ?thesis unfolding IterNodes_def
    by (induction rule: list_all2_induct) (auto simp: node_rel_def)
qed

lemma evolves_tagCallees: "evolves True h (tagCallees c p h)"
  unfolding tagCallees_def
  by (rule evolves_fold)
     (auto split: option.splits simp: evolves_refl static_eq_def setProperty_def
           intro!: evolves_modifyNode)

lemma evolves_detectCallPatterns: "evolves True g (detectCallPatterns g)"
  unfolding detectCallPatterns_def Let_def
  by (rule evolves_forNodes)
     (auto split: option.splits intro: evolves_refl evolves_tagCallees evolves_trans)

lemma evolves_flagUnreachable: "evolves False g (flagUnreachable g)"
  unfolding flagUnreachable_def Let_def
  by (rule evolves_forNodes)
     (auto simp: evolves_refl static_eq_IsDead intro!: evolves_modifyNode)

lemma evolves_untagIntraClass: "evolves True h (untagIntraClass node h)"
  unfolding untagIntraClass_def
  by (rule evolves_fold)
     (auto split: option.splits simp: evolves_refl static_eq_def setProperty_def
           intro!: evolves_modifyNode)

lemma evolves_untagIntraFile: "evolves True h (untagIntraFile fp c h)"
  unfolding untagIntraFile_def
  by (rule evolves_fold)
     (auto split: option.splits simp: evolves_refl static_eq_def setProperty_def
           intro!: evolves_modifyNode)

lemma evolves_trackIntraClassCalls: "evolves True g (trackIntraClassCalls g)"
proof -
  let ?g1 = "forNodes g (\<lambda>k node h.
                 if Label node = NodeMethod \<and> ClassName node \<noteq> ''''
                 then untagIntraClass node h else h)"
  have 1: "evolves True g ?g1"
    by (rule evolves_forNodes) (auto simp: evolves_refl evolves_untagIntraClass)
  have 2: "evolves True h (fold (\<lambda>(name, k) h'.
                         (case map_of (nodes h') k of
                            Some caller \<Rightarrow> untagIntraFile filePath (ID caller) h'
                          | None \<Rightarrow> h')) ms h)"
    for h filePath and ms :: "(string \<times> string) list"
    by (rule evolves_fold) (auto split: option.splits simp: evolves_refl evolves_untagIntraFile)
  have 3: "evolves True ?g1 (fold (\<lambda>(filePath, methods) h.
                 fold (\<lambda>(name, k) h'.
                         (case map_of (nodes h') k of
                            Some caller \<Rightarrow> untagIntraFile filePath (ID caller) h'
                          | None \<Rightarrow> h'))
                   (methodNodes h methods) h)
           (fileMethods g) ?g1)"
    by (rule evolves_fold) (auto simp: 2)
  show ?thesis unfolding trackIntraClassCalls_def Let_def
    by (rule evolves_trans[OF 1 3])
qed

lemma evolves_applyExemptions: "evolves True g (applyExemptions g)"
  unfolding applyExemptions_def
  by (rule evolves_forNodes)
     (auto simp: evolves_refl static_eq_IsDead intro!: evolves_modifyNode)

lemma evolves_applyAllowlistExemptions: "evolves True g (applyAllowlistExemptions g)"
  unfolding applyAllowlistExemptions_def
  by (rule evolves_forNodes)
     (auto simp: evolves_refl static_eq_def setProperty_def intro!: evolves_modifyNode)

lemma evolves_applyOverridePass: "evolves True g (applyOverridePass sched g)"
  unfolding applyOverridePass_def
  by (rule evolves_forNodes)
     (auto simp: evolves_refl static_eq_IsDead intro!: evolves_modifyNode)

lemma evolves_assignConfidenceScores: "evolves True g (assignConfidenceScores g)"
  unfolding assignConfidenceScores_def
  by (rule evolves_forNodes)
     (auto simp: evolves_refl static_eq_def setProperty_def intro!: evolves_modifyNode)

subsection \<open>The exemption pass\<close>

lemma isDeadCodeExempt_static:
  assumes "static_eq n n'"
  shows "isDeadCodeExempt n' = isDeadCodeExempt n"
proof -
  from static_eq_fields[OF assms] have f:
    "Label n' = Label n" "Name n' = Name n" "FilePath n' = FilePath n"
    "ClassName n' = ClassName n" "IsEntryPoint n' = IsEntryPoint n" "IsExported n' = IsExported n"
    by simp_all
  show ?thesis
    unfolding isDeadCodeExempt_def isTestFunction_def isDunderMethod_def isConstructor_def
    by (simp only: f)
qed

lemma map_of_modifyNode:
  "map_of (nodes (modifyNode k f g)) k' =
     (if k' = k then map_option f (map_of (nodes g) k) else map_of (nodes g) k')"
  by (auto simp: modifyNode_def map_of_map_entry split: option.splits)

lemma applyExemptions_fold: "applyExemptions g = fold exempt_step (IterNodes g) g"
  by (simp add: applyExemptions_def forNodes_def exempt_step_def[abs_def])

lemma evolves_exempt_step: "evolves True h (exempt_step k h)"
  by (auto simp: exempt_step_def evolves_refl static_eq_IsDead split: option.splits
           intro!: evolves_modifyNode)

lemma exempt_step_at:
  "map_of (nodes (exempt_step k h)) k = Some n \<Longrightarrow> isDeadCodeExempt n \<Longrightarrow> \<not> IsDead n"
  by (auto simp: exempt_step_def map_of_modifyNode isDeadCodeExempt_def
           split: option.splits if_splits)

lemma spared_stable:
  assumes "evolves True h h'"
    and "\<And>n. map_of (nodes h) k = Some n \<Longrightarrow> isDeadCodeExempt n \<Longrightarrow> \<not> IsDead n"
    and "map_of (nodes h') k = Some n'" "isDeadCodeExempt n'"
  shows "\<not> IsDead n'"
proof (cases "map_of (nodes h) k")
  case None
  with evolves_lookup_None[OF assms(1)] assms(3) show ?thesis by simp
next
  case (Some n)
  from evolves_lookup[OF assms(1) Some] assms(3)
  have "static_eq n n'" "IsDead n' \<longrightarrow> IsDead n" by auto
  with assms(2)[OF Some] assms(4) isDeadCodeExempt_static[of n n'] show ?thesis by auto
qed

lemma fold_exempt_step_post:
  "k \<in> set ks \<Longrightarrow> map_of (nodes (fold exempt_step ks h)) k = Some n \<Longrightarrow>
   isDeadCodeExempt n \<Longrightarrow> \<not> IsDead n"
proof (induction ks arbitrary: h)
  case Nil
  then show ?case by simp
next
  case (Cons a ks)
  show ?case
  proof (cases "k \<in> set ks")
    case True
    with Cons show ?thesis by simp
  next
    case False
    with Cons.prems(1) have ka: "k = a" by simp
    have ev: "evolves True (exempt_step a h) (fold exempt_step ks (exempt_step a h))"
      by (rule evolves_fold) (rule evolves_exempt_step)
    show ?thesis
      by (rule spared_stable[OF ev _ _ Cons.prems(3), of k])
         (use Cons.prems(2) ka exempt_step_at in \<open>auto\<close>)
  qed
qed

lemma applyExemptions_post:
  assumes "map_of (nodes (applyExemptions g)) k = Some n" "isDeadCodeExempt n"
  shows "\<not> IsDead n"
proof -
  have "k \<in> set (IterNodes (applyExemptions g))"
    using assms(1)
    by (auto simp: IterNodes_def dest!: map_of_SomeD intro!: image_eqI[where x="(k, n)"])
  then have "k \<in> set (IterNodes g)"
    using evolves_keys[OF evolves_applyExemptions[of g]] by simp
  then show ?thesis
    using fold_exempt_step_post[of k "IterNodes g" g n] assms
    by (simp add: applyExemptions_fold)
qed

lemma ProcessDeadCode_passes:
  "fst (ProcessDeadCode sched g) =
     assignConfidenceScores (applyOverridePass sched (beforeOverridePass g))"
  by (simp add: ProcessDeadCode_def beforeOverridePass_def Let_def)

lemma spared_after_exemptions:
  assumes "GetNode g k = Some N" and "isDeadCodeExempt N"
  shows "\<exists>N'. GetNode (fst (ProcessDeadCode sched g)) k = Some N' \<and> static_eq N N' \<and> \<not> IsDead N'"
proof -
  let ?g3 = "trackIntraClassCalls (flagUnreachable (detectCallPatterns g))"
  let ?g4 = "applyExemptions ?g3"
  let ?g7 = "assignConfidenceScores (applyOverridePass sched (applyAllowlistExemptions ?g4))"
  have e01: "evolves False g (detectCallPatterns g)"
    by (rule evolves_weaken[OF evolves_detectCallPatterns])
  have e02: "evolves False g (flagUnreachable (detectCallPatterns g))"
    by (rule evolves_trans[OF e01 evolves_flagUnreachable])
  have e03: "evolves False g ?g3"
    by (rule evolves_trans[OF e02 evolves_weaken[OF evolves_trackIntraClassCalls]])
  have e04: "evolves False g ?g4"
    by (rule evolves_trans[OF e03 evolves_weaken[OF evolves_applyExemptions]])
  have e47: "evolves True ?g4 ?g7"
    by (rule evolves_trans[OF evolves_applyAllowlistExemptions
          evolves_trans[OF evolves_applyOverridePass evolves_assignConfidenceScores]])
  from assms(1) have "map_of (nodes g) k = Some N" by (simp add: GetNode_def)
  from evolves_lookup[OF e04 this] obtain N4 where
    n4: "map_of (nodes ?g4) k = Some N4" "static_eq N N4" by blast
  from n4(2) assms(2) have "isDeadCodeExempt N4" by (simp add: isDeadCodeExempt_static)
  with applyExemptions_post[OF n4(1)] have "\<not> IsDead N4" .
  moreover from evolves_lookup[OF e47 n4(1)] obtain N7 where
    n7: "map_of (nodes ?g7) k = Some N7" "static_eq N4 N7" "IsDead N7 \<longrightarrow> IsDead N4" by blast
  ultimately have "\<not> IsDead N7" by blast
  moreover have "static_eq N N7" using n4(2) n7(2) by (rule static_eq_trans)
  moreover have "fst (ProcessDeadCode sched g) = ?g7" by (simp add: ProcessDeadCode_def Let_def)
  ultimately show ?thesis using n7(1) by (simp add: GetNode_def)
qed

text \<open>
  C3 (dead-code exemptions), as the code has it. A node is not dead after
  \<^const>\<open>ProcessDeadCode\<close>, whatever the graph, its flag before and the order of
  the lookups, when it is an entry point, or exported, or lies in a file whose path ends
  in \<open>_test.go\<close> or \<open>_test.py\<close>, or is a function node whose name starts with
  \<open>Test\<close> or \<open>test_\<close>, or has a name that starts and ends with two underscores,
  or is a method node named \<open>New\<close> followed by its class name, or \<open>__init__\<close>.
  The name conventions for tests apply to function nodes and those for constructors to
  method nodes.
\<close>

theorem ProcessDeadCode_exemptions:
  assumes "GetNode g k = Some N"
    and "IsEntryPoint N \<or> IsExported N \<or>
         HasSuffix (FilePath N) ''_test.go'' \<or> HasSuffix (FilePath N) ''_test.py'' \<or>
         (Label N = NodeFunction \<and>
            (HasPrefix (Name N) ''Test'' \<or> HasPrefix (Name N) ''test_'')) \<or>
         (HasPrefix (Name N) ''__'' \<and> HasSuffix (Name N) ''__'') \<or>
         (Label N = NodeMethod \<and> (Name N = ''New'' @ ClassName N \<or> Name N = ''__init__''))"
  shows "\<exists>N'. GetNode (fst (ProcessDeadCode sched g)) k = Some N' \<and> static_eq N N' \<and> \<not> IsDead N'"
proof -
  from assms(2) have "isDeadCodeExempt N"
    by (auto simp: isDeadCodeExempt_def isTestFunction_def isDunderMethod_def isConstructor_def)
  from spared_after_exemptions[OF assms(1) this] show ?thesis .
qed

text \<open>
  In scenario 2 \<open>main\<close> has no caller, so pass 2 flags it; it is an entry point, and
  is not dead at the end.
\<close>

theorem ProcessDeadCode_exemptions_witness:
  "GetNode scenario2_graph ''function:main.go:main'' =
     Some ((mkNode ''function:main.go:main'' NodeFunction ''main'' ''main.go'')\<lparr>IsEntryPoint := True\<rparr>) \<and>
   \<not> HasIncoming scenario2_graph ''function:main.go:main'' RelCalls \<and>
   (\<forall>sched. \<exists>N'. GetNode (fst (ProcessDeadCode sched scenario2_graph)) ''function:main.go:main'' = Some N' \<and>
         static_eq ((mkNode ''function:main.go:main'' NodeFunction ''main'' ''main.go'')\<lparr>IsEntryPoint := True\<rparr>) N' \<and>
         \<not> IsDead N')"
proof -
  have n: "GetNode scenario2_graph ''function:main.go:main'' =
     Some ((mkNode ''function:main.go:main'' NodeFunction ''main'' ''main.go'')\<lparr>IsEntryPoint := True\<rparr>)"
    by (simp add: scenario2_graph_def GetNode_def AddRelationship_def AddNode_def
                  NewKnowledgeGraph_def Let_def mkNode_def)
  have e: "IsEntryPoint ((mkNode ''function:main.go:main'' NodeFunction ''main'' ''main.go'')\<lparr>IsEntryPoint := True\<rparr>)"
    by simp
  have h: "\<not> HasIncoming scenario2_graph ''function:main.go:main'' RelCalls"
    by code_simp
  from ProcessDeadCode_exemptions[OF n] e n h show ?thesis by blast
qed

text \<open>
  The name convention alone does not exempt: the method \<open>test_login\<close> stays dead.
\<close>

theorem ProcessDeadCode_exemptions_counterexample:
  "map_option (\<lambda>n. (Label n, HasPrefix (Name n) ''test_'', IsDead n))
     (GetNode test_method_graph ''method:auth.py:Auth.test_login'')
     = Some (NodeMethod, True, False) \<and>
   map_option IsDead
     (GetNode (fst (ProcessDeadCode first_match test_method_graph))
        ''method:auth.py:Auth.test_login'')
     = Some True"
  by code_simp

subsection \<open>The override pass\<close>

lemma filter_list_all2:
  assumes "list_all2 R xs ys" and "\<And>x y. R x y \<Longrightarrow> P x = Q y"
  shows "list_all2 R (filter P xs) (filter Q ys)"
  using assms by (induction rule: list_all2_induct) auto

lemma list_all2_memD2:
  "list_all2 R xs ys \<Longrightarrow> y \<in> set ys \<Longrightarrow> \<exists>x \<in> set xs. R x y"
  by (induction rule: list_all2_induct) auto

lemma list_all2_Nil_iff: "list_all2 R xs ys \<Longrightarrow> (xs = []) = (ys = [])"
  by (cases xs; cases ys) auto

lemma pick_None: "(pick n xs = None) = (xs = [])"
  by (simp add: pick_def)

lemma pick_mem: "pick n xs = Some x \<Longrightarrow> x \<in> set xs"
  by (auto simp: pick_def split: if_splits)

lemma classesNamed_evolves:
  assumes "evolves True g h"
  shows "list_all2 static_eq (classesNamed g cn) (classesNamed h cn)"
proof -
  let ?P = "\<lambda>(k, node). Label node = NodeClass \<and> Name node = cn"
  have l: "list_all2 (node_rel True) (nodes g) (nodes h)"
    using assms by (simp add: evolves_def)
  have "list_all2 (node_rel True) (filter ?P (nodes g)) (filter ?P (nodes h))"
    by (rule filter_list_all2[OF l]) (auto simp: node_rel_def dest!: static_eq_fields)
  then have "list_all2 (\<lambda>x y. static_eq (snd x) (snd y)) (filter ?P (nodes g)) (filter ?P (nodes h))"
    by (rule list_all2_mono) (simp add: node_rel_def)
  then show ?thesis
    by (simp add: classesNamed_def list_all2_map1 list_all2_map2)
qed

lemma methodsNamed_evolves:
  assumes "evolves True g h"
  shows "list_all2 (\<lambda>a b. IsDead b \<longrightarrow> IsDead a) (methodsNamed g cn mn) (methodsNamed h cn mn)"
proof -
  let ?P = "\<lambda>(k, node). Label node = NodeMethod \<and> ClassName node = cn \<and> Name node = mn"
  have l: "list_all2 (node_rel True) (nodes g) (nodes h)"
    using assms by (simp add: evolves_def)
  have "list_all2 (node_rel True) (filter ?P (nodes g)) (filter ?P (nodes h))"
    by (rule filter_list_all2[OF l]) (auto simp: node_rel_def dest!: static_eq_fields)
  then have "list_all2 (\<lambda>x y. IsDead (snd y) \<longrightarrow> IsDead (snd x))
               (filter ?P (nodes g)) (filter ?P (nodes h))"
    by (rule list_all2_mono) (simp add: node_rel_def)
  then show ?thesis
    by (simp add: methodsNamed_def list_all2_map1 list_all2_map2)
qed

lemma findBaseClasses_fold_evolves:
  assumes "evolves True g h"
  shows "list_all2 static_eq acc acc' \<Longrightarrow>
         list_all2 static_eq
           (fold (\<lambda>rel baseClasses.
             (case GetNode g (Target rel) of
                Some baseClass \<Rightarrow>
                  if Label baseClass = NodeClass then baseClasses @ [baseClass] else baseClasses
              | None \<Rightarrow> baseClasses)) rels acc)
           (fold (\<lambda>rel baseClasses.
             (case GetNode h (Target rel) of
                Some baseClass \<Rightarrow>
                  if Label baseClass = NodeClass then baseClasses @ [baseClass] else baseClasses
              | None \<Rightarrow> baseClasses)) rels acc')"
proof (induction rels arbitrary: acc acc')
  case Nil
  then show ?case by simp
next
  case (Cons r rels)
  show ?case
  proof (cases "map_of (nodes g) (Target r)")
    case None
    with evolves_lookup_None[OF assms None] Cons show ?thesis by (simp add: GetNode_def)
  next
    case (Some b)
    from evolves_lookup[OF assms Some] obtain b' where
      b': "map_of (nodes h) (Target r) = Some b'" "static_eq b b'" by blast
    from static_eq_fields[OF b'(2)] have lab: "Label b' = Label b" by simp
    show ?thesis
    proof (cases "Label b = NodeClass")
      case True
      have "list_all2 static_eq (acc @ [b]) (acc' @ [b'])"
        using Cons.prems b'(2) by (simp add: list_all2_appendI)
      from Cons.IH[OF this] True Some b' lab show ?thesis
        by (simp add: GetNode_def)
    next
      case False
      with Cons.IH[OF Cons.prems] Some b' lab show ?thesis
        by (simp add: GetNode_def)
    qed
  qed
qed

lemma findBaseClasses_evolves:
  assumes "evolves True g h" "static_eq C C'"
  shows "list_all2 static_eq (findBaseClasses g C) (findBaseClasses h C')"
proof -
  have "ID C' = ID C" using static_eq_fields[OF assms(2)] by simp
  moreover have "outgoing h = outgoing g" using assms(1) by (simp add: evolves_def)
  ultimately have "GetOutgoing h (ID C') [RelExtends] = GetOutgoing g (ID C) [RelExtends]"
    by (simp add: GetOutgoing_def)
  then show ?thesis
    unfolding findBaseClasses_def
    using findBaseClasses_fold_evolves[OF assms(1), of "[]" "[]"] by simp
qed

lemma live_in_base_evolves:
  assumes "evolves True g h" "static_eq B B'"
    and "methodsNamed g (Name B) mn \<noteq> []"
    and "\<forall>BM \<in> set (methodsNamed g (Name B) mn). \<not> IsDead BM"
  shows "methodsNamed h (Name B') mn \<noteq> [] \<and>
         (\<forall>BM \<in> set (methodsNamed h (Name B') mn). \<not> IsDead BM)"
proof -
  from static_eq_fields[OF assms(2)] have n: "Name B' = Name B" by simp
  have l: "list_all2 (\<lambda>a b. IsDead b \<longrightarrow> IsDead a)
             (methodsNamed g (Name B) mn) (methodsNamed h (Name B) mn)"
    by (rule methodsNamed_evolves[OF assms(1)])
  from list_all2_Nil_iff[OF l] assms(3) have "methodsNamed h (Name B) mn \<noteq> []"
    by simp
  moreover have "\<not> IsDead y" if "y \<in> set (methodsNamed h (Name B) mn)" for y
    using list_all2_memD2[OF l that] assms(4) by auto
  ultimately show ?thesis by (simp add: n)
qed

lemma isOverride_evolves:
  assumes ev: "evolves True g h"
    and M: "static_eq M M'" "ClassName M \<noteq> ''''"
    and C: "classesNamed g (ClassName M) \<noteq> []"
    and B: "\<forall>C \<in> set (classesNamed g (ClassName M)).
              \<exists>B \<in> set (findBaseClasses g C).
                methodsNamed g (Name B) (Name M) \<noteq> [] \<and>
                (\<forall>BM \<in> set (methodsNamed g (Name B) (Name M)). \<not> IsDead BM)"
  shows "isOverrideOfNonDeadMethod sched k h M'"
proof -
  from static_eq_fields[OF M(1)] have f: "ClassName M' = ClassName M" "Name M' = Name M"
    by simp_all
  have lc: "list_all2 static_eq (classesNamed g (ClassName M)) (classesNamed h (ClassName M))"
    by (rule classesNamed_evolves[OF ev])
  from list_all2_Nil_iff[OF lc] C have "classesNamed h (ClassName M) \<noteq> []" by simp
  then obtain C' where
    C': "findClassByName (classChoice sched k) h (ClassName M) = Some C'"
    by (cases "findClassByName (classChoice sched k) h (ClassName M)")
       (auto simp: findClassByName_def pick_None)
  then have "C' \<in> set (classesNamed h (ClassName M))"
    by (simp add: findClassByName_def pick_mem)
  from list_all2_memD2[OF lc this] obtain C0 where
    C0: "C0 \<in> set (classesNamed g (ClassName M))" "static_eq C0 C'" by blast
  from B C0(1) obtain B0 where
    B0: "B0 \<in> set (findBaseClasses g C0)"
        "methodsNamed g (Name B0) (Name M) \<noteq> []"
        "\<forall>BM \<in> set (methodsNamed g (Name B0) (Name M)). \<not> IsDead BM" by blast
  have lb: "list_all2 static_eq (findBaseClasses g C0) (findBaseClasses h C')"
    by (rule findBaseClasses_evolves[OF ev C0(2)])
  from B0(1) obtain j where j: "j < length (findBaseClasses g C0)"
    "findBaseClasses g C0 ! j = B0" by (auto simp: in_set_conv_nth)
  define B' where "B' = findBaseClasses h C' ! j"
  have jl: "j < length (findBaseClasses h C')"
    using j(1) list_all2_lengthD[OF lb] by simp
  have sB: "static_eq B0 B'"
    using list_all2_nthD[OF lb j(1)] j(2) by (simp add: B'_def)
  have live: "methodsNamed h (Name B') (Name M) \<noteq> [] \<and>
              (\<forall>BM \<in> set (methodsNamed h (Name B') (Name M)). \<not> IsDead BM)"
    by (rule live_in_base_evolves[OF ev sB B0(2,3)])
  have mem: "(j, B') \<in> set (enumerate 0 (findBaseClasses h C'))"
    using jl by (simp add: in_set_enumerate_eq B'_def)
  have found: "case findMethodInClass (methodChoice sched k j) h B' (Name M) of
          Some baseMethod \<Rightarrow> \<not> IsDead baseMethod | None \<Rightarrow> False"
  proof (cases "findMethodInClass (methodChoice sched k j) h B' (Name M)")
    case None
    with live show ?thesis
      by (simp add: findMethodInClass_def pick_None)
  next
    case (Some bm)
    then have "bm \<in> set (methodsNamed h (Name B') (Name M))"
      by (simp add: findMethodInClass_def pick_mem)
    with live Some show ?thesis by simp
  qed
  have "list_ex (\<lambda>(j, baseClass).
                        (case findMethodInClass (methodChoice sched k j) h baseClass
                                (Name M) of
                           Some baseMethod \<Rightarrow> \<not> IsDead baseMethod
                         | None \<Rightarrow> False))
               (enumerate 0 (findBaseClasses h C'))"
    unfolding list_ex_iff using mem found by (intro bexI[of _ "(j, B')"]) simp_all
  with C' M(2) show ?thesis
    unfolding isOverrideOfNonDeadMethod_def f by simp
qed

lemma applyOverridePass_fold:
  "applyOverridePass sched g = fold (override_step sched) (IterNodes g) g"
  by (simp add: applyOverridePass_def forNodes_def override_step_def[abs_def])

lemma evolves_override_step: "evolves True h (override_step sched k h)"
  by (auto simp: override_step_def evolves_refl static_eq_IsDead split: option.splits
           intro!: evolves_modifyNode)

lemma fold_override_step_post:
  assumes M: "map_of (nodes g) k = Some M" "Label M = NodeMethod" "ClassName M \<noteq> ''''"
    and C: "classesNamed g (ClassName M) \<noteq> []"
    and B: "\<forall>C \<in> set (classesNamed g (ClassName M)).
              \<exists>B \<in> set (findBaseClasses g C).
                methodsNamed g (Name B) (Name M) \<noteq> [] \<and>
                (\<forall>BM \<in> set (methodsNamed g (Name B) (Name M)). \<not> IsDead BM)"
  shows "evolves True g h \<Longrightarrow> k \<in> set ks \<Longrightarrow>
         \<exists>M'. map_of (nodes (fold (override_step sched) ks h)) k = Some M' \<and> \<not> IsDead M'"
proof (induction ks arbitrary: h)
  case Nil
  then show ?case by simp
next
  case (Cons a ks)
  have ev1: "evolves True g (override_step sched a h)"
    by (rule evolves_trans[OF Cons.prems(1) evolves_override_step])
  show ?case
  proof (cases "k \<in> set ks")
    case True
    from Cons.IH[OF ev1 True] show ?thesis by simp
  next
    case False
    with Cons.prems(2) have ka: "a = k" by simp
    from evolves_lookup[OF Cons.prems(1) M(1)] obtain M1 where
      M1: "map_of (nodes h) k = Some M1" "static_eq M M1" by blast
    from static_eq_fields[OF M1(2)] M(2) have lab: "Label M1 = NodeMethod" by simp
    have ov: "isOverrideOfNonDeadMethod sched k h M1"
      by (rule isOverride_evolves[OF Cons.prems(1) M1(2) M(3) C B])
    have "\<exists>M2. map_of (nodes (override_step sched k h)) k = Some M2 \<and> \<not> IsDead M2"
      using M1(1) lab ov by (auto simp: override_step_def map_of_modifyNode)
    then obtain M2 where
      M2: "map_of (nodes (override_step sched k h)) k = Some M2" "\<not> IsDead M2"
      by blast
    have "evolves True (override_step sched k h)
            (fold (override_step sched) ks (override_step sched k h))"
      by (rule evolves_fold) (rule evolves_override_step)
    from evolves_lookup[OF this M2(1)] M2(2) show ?thesis by (auto simp: ka)
  qed
qed

text \<open>
  C4 (override pass), as the code has it. \<^const>\<open>findBaseClasses\<close> follows the
  \<open>extends\<close> edges that leave the class itself, one step. Let \<open>M\<close> be a method
  node with a class name in the graph the override pass starts from. If that graph has
  a class node of that name, and each class node of that name has a direct base class
  for which a method node with the name of \<open>M\<close> exists and all such method nodes
  are live, then \<open>M\<close> is not dead after \<^const>\<open>ProcessDeadCode\<close>, whichever
  node each lookup of the pass finds first.
\<close>

theorem override_direct_base:
  assumes "GetNode (beforeOverridePass g) k = Some M"
    and "Label M = NodeMethod" and "ClassName M \<noteq> ''''"
    and "classesNamed (beforeOverridePass g) (ClassName M) \<noteq> []"
    and "\<forall>C \<in> set (classesNamed (beforeOverridePass g) (ClassName M)).
           \<exists>B \<in> set (findBaseClasses (beforeOverridePass g) C).
             methodsNamed (beforeOverridePass g) (Name B) (Name M) \<noteq> [] \<and>
             (\<forall>BM \<in> set (methodsNamed (beforeOverridePass g) (Name B) (Name M)). \<not> IsDead BM)"
  shows "\<exists>M'. GetNode (fst (ProcessDeadCode sched g)) k = Some M' \<and> static_eq M M' \<and> \<not> IsDead M'"
proof -
  let ?g5 = "beforeOverridePass g"
  let ?g6 = "applyOverridePass sched ?g5"
  have m: "map_of (nodes ?g5) k = Some M" using assms(1) by (simp add: GetNode_def)
  then have "k \<in> set (IterNodes ?g5)"
    by (auto simp: IterNodes_def dest!: map_of_SomeD intro!: image_eqI[where x="(k, M)"])
  from fold_override_step_post[OF m assms(2-5) evolves_refl this, of sched]
  obtain M6 where M6: "map_of (nodes ?g6) k = Some M6" "\<not> IsDead M6"
    by (auto simp: applyOverridePass_fold)
  from evolves_lookup[OF evolves_applyOverridePass m, of sched] M6(1)
  have s6: "static_eq M M6" by auto
  from evolves_lookup[OF evolves_assignConfidenceScores M6(1)] obtain M7 where
    M7: "map_of (nodes (assignConfidenceScores ?g6)) k = Some M7" "static_eq M6 M7"
        "IsDead M7 \<longrightarrow> IsDead M6" by blast
  have "fst (ProcessDeadCode sched g) = assignConfidenceScores ?g6"
    by (rule ProcessDeadCode_passes)
  with M7 M6(2) static_eq_trans[OF s6 M7(2)] show ?thesis by (auto simp: GetNode_def)
qed

text \<open>
  \<open>Derived.run\<close> is dead when the override pass starts, the one class node
  \<open>Derived\<close> extends \<open>Base\<close>, and the one method \<open>Base.run\<close> is live:
  \<open>Derived.run\<close> is not dead at the end, whatever the lookups find first.
\<close>

theorem override_direct_base_witness:
  "(let g5 = beforeOverridePass direct_base_graph;
        M = the (GetNode g5 ''method:derived.py:Derived.run'')
    in ID M = ''method:derived.py:Derived.run'' \<and> Label M = NodeMethod \<and> IsDead M \<and>
       ClassName M = ''Derived'' \<and> Name M = ''run'' \<and>
       map ID (classesNamed g5 ''Derived'') = [''class:derived.py:Derived''] \<and>
       map (\<lambda>C. map (\<lambda>B. (ID B, Name B)) (findBaseClasses g5 C)) (classesNamed g5 ''Derived'')
         = [[(''class:base.py:Base'', ''Base'')]] \<and>
       map (\<lambda>BM. (ID BM, IsDead BM)) (methodsNamed g5 ''Base'' ''run'')
         = [(''method:base.py:Base.run'', False)]) \<and>
   (\<forall>sched. map_option IsDead
      (GetNode (fst (ProcessDeadCode sched direct_base_graph)) ''method:derived.py:Derived.run'')
    = Some False)"
proof -
  define g5 where "g5 = beforeOverridePass direct_base_graph"
  define M where "M = the (GetNode g5 ''method:derived.py:Derived.run'')"
  note defs = g5_def M_def
  have 1: "map_option ID (GetNode g5 ''method:derived.py:Derived.run'') =
             Some ''method:derived.py:Derived.run''"
    unfolding defs by code_simp
  have 2: "Label M = NodeMethod \<and> IsDead M \<and> ClassName M = ''Derived'' \<and> Name M = ''run''"
    unfolding defs by code_simp
  have 3: "map ID (classesNamed g5 ''Derived'') = [''class:derived.py:Derived'']"
    unfolding defs by code_simp
  have 4: "map (\<lambda>C. map (\<lambda>B. (ID B, Name B)) (findBaseClasses g5 C)) (classesNamed g5 ''Derived'')
         = [[(''class:base.py:Base'', ''Base'')]]"
    unfolding defs by code_simp
  have 5: "map (\<lambda>BM. (ID BM, IsDead BM)) (methodsNamed g5 ''Base'' ''run'')
         = [(''method:base.py:Base.run'', False)]"
    unfolding defs by code_simp
  from 1 have h1: "GetNode g5 ''method:derived.py:Derived.run'' = Some M"
    by (auto simp: M_def)
  from 2 have h2: "Label M = NodeMethod" and h3: "ClassName M \<noteq> ''''"
    and cn: "ClassName M = ''Derived''" and mn: "Name M = ''run''" by auto
  from 3 have h4: "classesNamed g5 (ClassName M) \<noteq> []" unfolding cn by auto
  have h5: "\<forall>C \<in> set (classesNamed g5 (ClassName M)).
           \<exists>B \<in> set (findBaseClasses g5 C).
             methodsNamed g5 (Name B) (Name M) \<noteq> [] \<and>
             (\<forall>BM \<in> set (methodsNamed g5 (Name B) (Name M)). \<not> IsDead BM)"
  proof
    fix C assume C: "C \<in> set (classesNamed g5 (ClassName M))"
    from 3 obtain C0 where c0: "classesNamed g5 ''Derived'' = [C0]"
      by (cases "classesNamed g5 ''Derived''") auto
    with C cn have CC: "C = C0" by simp
    from 4 c0 have b: "map (\<lambda>B. (ID B, Name B)) (findBaseClasses g5 C0)
                         = [(''class:base.py:Base'', ''Base'')]" by simp
    then obtain B0 where b0: "findBaseClasses g5 C0 = [B0]"
      by (cases "findBaseClasses g5 C0") auto
    with b have nb: "Name B0 = ''Base''" by simp
    from 5 obtain BM0 where m0: "methodsNamed g5 ''Base'' ''run'' = [BM0]"
      by (cases "methodsNamed g5 ''Base'' ''run''") auto
    with 5 have "\<not> IsDead BM0" by simp
    with m0 b0 nb show "\<exists>B \<in> set (findBaseClasses g5 C).
             methodsNamed g5 (Name B) (Name M) \<noteq> [] \<and>
             (\<forall>BM \<in> set (methodsNamed g5 (Name B) (Name M)). \<not> IsDead BM)"
      unfolding CC mn by simp
  qed
  have c: "map_option IsDead
     (GetNode (fst (ProcessDeadCode sched direct_base_graph)) ''method:derived.py:Derived.run'')
     = Some False" for sched
    using override_direct_base[OF h1[unfolded g5_def] h2 h3 h4[unfolded g5_def]
        h5[unfolded g5_def], of sched]
    by auto
  have "ID M = ''method:derived.py:Derived.run''" using 1 h1 by simp
  then show ?thesis
    using 2 3 4 5 c unfolding Let_def defs[symmetric] by simp
qed

text \<open>
  A longer chain of \<open>extends\<close> edges is not followed: \<open>Leaf.run\<close> stays dead
  although \<open>Base\<close>, the base class of the base class of \<open>Leaf\<close>, has the live
  method \<open>run\<close>.
\<close>

theorem override_ancestor_counterexample:
  "map_option IsDead
     (GetNode (fst (ProcessDeadCode first_match grandparent_graph)) ''method:base.py:Base.run'')
     = Some False \<and>
   map_option IsDead
     (GetNode (fst (ProcessDeadCode first_match grandparent_graph)) ''method:leaf.py:Leaf.run'')
     = Some True"
  by code_simp

subsection \<open>Scenario 2\<close>

text \<open>Scenario 2: the confidence of \<open>bar\<close> is not \<open>high\<close>.\<close>

theorem scenario2_confidence_counterexample:
  "map_option (\<lambda>n. Properties n ''dead_code_confidence'')
     (GetNode (fst (ProcessDeadCode first_match scenario2_graph)) ''function:main.go:bar'')
   \<noteq> Some (Some (VString ''high''))"
  by code_simp

text \<open>
  C5 (scenario 2), as the code has it. Exactly \<open>bar\<close> is dead, and its confidence is
  \<open>medium\<close>: \<open>bar\<close> is a function whose name starts with a lower-case letter,
  which \<^const>\<open>confidenceOf\<close> grades down from \<open>high\<close>. The graph has no
  method, so the override pass looks nothing up.
\<close>

theorem scenario2_dead_code:
  "map ID (GetDeadCodeList (fst (ProcessDeadCode sched scenario2_graph))) = [''function:main.go:bar''] \<and>
   snd (ProcessDeadCode sched scenario2_graph) = 1 \<and>
   map_option (\<lambda>n. Properties n ''dead_code_confidence'')
     (GetNode (fst (ProcessDeadCode sched scenario2_graph)) ''function:main.go:bar'')
   = Some (Some (VString ''medium''))"
  by code_simp

section \<open>Properties of the traversal\<close>

lemma traverse_loop_direction:
  "direction \<noteq> ''callers'' \<Longrightarrow>
   traverse_loop b startID depth direction queue visited result =
   traverse_loop (b\<lparr>GetCallers := other\<rparr>) startID depth ''callees'' queue visited result"
proof (induction b startID depth direction queue visited result rule: traverse_loop.induct)
  case (1 b startID depth direction visited result)
  show ?case by simp
next
  case (2 b startID depth direction nodeID d queue visited result)
  note dir = \<open>direction \<noteq> ''callers''\<close>
  let ?fetched = "fetch_node b startID nodeID result"
  have fetch: "fetch_node (b\<lparr>GetCallers := other\<rparr>) startID nodeID result = ?fetched"
    by (simp add: fetch_node_def)
  show ?case
  proof (cases "nodeID \<in> visited")
    case True
    with "2.IH"(1) dir show ?thesis by simp
  next
    case False
    show ?thesis
    proof (cases ?fetched)
      case None
      with "2.IH"(2)[OF False refl _ dir] False fetch show ?thesis by (simp add: Let_def)
    next
      case (Some result')
      show ?thesis
      proof (cases "d < depth")
        case notdeep: False
        with "2.IH"(5)[OF False refl _ _ dir] False Some fetch show ?thesis
          by (simp add: Let_def)
      next
        case deep: True
        show ?thesis
        proof (cases "GetCallees b nodeID")
          case (Inl err)
          with "2.IH"(3)[OF False refl _ deep _ dir] False Some deep dir fetch show ?thesis
            by (simp add: Let_def)
        next
          case (Inr neighbors)
          with "2.IH"(4)[OF False refl _ deep _ dir] False Some deep dir fetch show ?thesis
            by (simp add: Let_def)
        qed
      qed
    qed
  qed
qed

text \<open>
  C10. With any direction other than the exact string \<open>callers\<close>,
  \<^const>\<open>Traverse\<close> returns what it returns for \<open>callees\<close>, whatever
  \<^verbatim>\<open>GetCallers\<close> would have answered, and its error is nil.
\<close>

theorem Traverse_unrecognized_direction:
  assumes "direction \<noteq> ''callers''"
  shows "Traverse b startID depth direction =
           Traverse (b\<lparr>GetCallers := other\<rparr>) startID depth ''callees'' \<and>
         snd (Traverse b startID depth direction) = None"
  using traverse_loop_direction[OF assms, of b startID _ "[(startID, 0)]" "{}" "[]" other]
  by (simp add: Traverse_def Let_def)

theorem Traverse_unrecognized_direction_witness:
  "''sideways'' \<noteq> ''callers'' \<and>
   Traverse call_backend ''function:main.go:foo'' 3 ''sideways'' =
     Traverse (call_backend\<lparr>GetCallers := (\<lambda>nodeID. Inl (Error ''unused''))\<rparr>)
       ''function:main.go:foo'' 3 ''callees'' \<and>
   snd (Traverse call_backend ''function:main.go:foo'' 3 ''sideways'') = None \<and>
   map ID (fst (Traverse call_backend ''function:main.go:foo'' 3 ''sideways'')) =
     [''function:main.go:bar''] \<and>
   map ID (fst (Traverse call_backend ''function:main.go:foo'' 3 ''callers'')) =
     [''function:main.go:main'']"
proof -
  have d: "''sideways'' \<noteq> ''callers''" by simp
  have e1: "map ID (fst (Traverse call_backend ''function:main.go:foo'' 3 ''sideways'')) =
     [''function:main.go:bar'']" by code_simp
  have e2: "map ID (fst (Traverse call_backend ''function:main.go:foo'' 3 ''callers'')) =
     [''function:main.go:main'']" by code_simp
  from Traverse_unrecognized_direction[OF d, of call_backend "''function:main.go:foo''" 3
         "\<lambda>nodeID. Inl (Error ''unused'')"] d e1 e2
  show ?thesis by blast
qed

section \<open>Properties of the pipeline\<close>

lemma phases_entered_append [simp]:
  "phases_entered (xs @ ys) = phases_entered xs @ phases_entered ys"
  by (simp add: phases_entered_def)

lemma phases_entered_simps [simp]:
  "phases_entered [] = []"
  "phases_entered (Enter p # evs) = p # phases_entered evs"
  "phases_entered (Return p # evs) = phases_entered evs"
  "phases_entered (Progress n v # evs) = phases_entered evs"
  by (simp_all add: phases_entered_def)

lemma phases_report [simp]:
  "phases_entered (snd (report progress name v st)) = phases_entered (snd st)"
  by (simp add: report_def)

lemma phases_call_phase [simp]:
  "phases_entered (snd (call_phase impl p st)) = phases_entered (snd st) @ [p]"
  by (simp add: call_phase_def)

lemma phases_reported_phase [simp]:
  "phases_entered (snd (reported_phase impl progress name p st)) = phases_entered (snd st) @ [p]"
  by (simp add: reported_phase_def)

text \<open>
  C1 asks for the numbered order. A full run enters the phases in this order instead:
  execution flows (9) before communities (8), and git coupling (11) before dead code (10).
\<close>

theorem RunPipeline_phase_order:
  "phases_entered (snd (RunPipeline impl None None True progress True s0)) =
     [Walk, Structure, Parsing, Imports, Calls, Heritage, Types,
      Processes, Communities, Coupling, DeadCode, Embeddings, Load] \<and>
   map phase_number (phases_entered (snd (RunPipeline impl None None True progress True s0))) =
     [1, 2, 3, 4, 5, 6, 7, 9, 8, 11, 10, 12, 13]"
  by (simp add: RunPipeline_def Let_def)

section \<open>Properties of the TF-IDF embedder\<close>

lemma docFreq_terms_distinct:
  "distinct (map fst df) \<Longrightarrow> distinct (map fst (docFreq_terms terms seen df))"
  by (induction terms seen df rule: docFreq_terms.induct) (auto simp: distinct_update)

lemma docFreq_distinct_fold:
  "distinct (map fst df) \<Longrightarrow>
   distinct (map fst (fold (\<lambda>doc df. docFreq_terms (tokenize doc) {} df) docs df))"
  by (induction docs arbitrary: df) (auto simp: docFreq_terms_distinct)

lemma docFreq_distinct: "distinct (map fst (docFreq docs))"
  by (simp add: docFreq_def docFreq_distinct_fold)

lemma ComputeIDF_fold_docCount:
  "docCount (fold (\<lambda>(term, df) e'.
             if df > 0 then e'\<lparr>idf := (idf e')(term \<mapsto> log_ratio (docCount e') df)\<rparr> else e')
       xs e) = docCount e"
  by (induction xs arbitrary: e) (auto split: prod.splits)

lemma ComputeIDF_fold_idf:
  "distinct (map fst xs) \<Longrightarrow>
   idf (fold (\<lambda>(term, df) e'.
             if df > 0 then e'\<lparr>idf := (idf e')(term \<mapsto> log_ratio (docCount e') df)\<rparr> else e')
       xs e) t =
   (case map_of xs t of
      Some df \<Rightarrow> if df > 0 then Some (log_ratio (docCount e) df) else idf e t
    | None \<Rightarrow> idf e t)"
proof (induction xs arbitrary: e)
  case Nil
  show ?case by simp
next
  case (Cons x xs)
  obtain tm df where x: "x = (tm, df)" by (cases x)
  from Cons.prems have d: "distinct (map fst xs)" and nin: "tm \<notin> fst ` set xs"
    by (auto simp: x)
  from nin have none: "map_of xs tm = None" by (simp add: map_of_eq_None_iff)
  show ?case
    using Cons.IH[OF d] none
    by (auto simp: x split: option.splits)
qed

lemma ComputeIDF_idf:
  "idf (ComputeIDF e docs) t =
   (case map_of (docFreq docs) t of
      Some df \<Rightarrow> if df > 0 then Some (log_ratio (docCount e) df) else idf e t
    | None \<Rightarrow> idf e t)"
  unfolding ComputeIDF_def by (rule ComputeIDF_fold_idf[OF docFreq_distinct])

lemma BuildVocabulary_docCount:
  "docCount (BuildVocabulary e docs) =
     (if snd (vocab_docs docs (vocab e) 0) then docCount e else int (length docs))"
  by (simp add: BuildVocabulary_def split: prod.splits)

text \<open>
  When the vocabulary fills up, a new embedder keeps the document count 0 and every
  score that \<^const>\<open>ComputeIDF\<close> stores is the logarithm of zero.
\<close>

lemma idf_after_full_vocabulary:
  assumes "snd (vocab_docs docs Map.empty 0)"
    and "map_of (docFreq docs) t = Some df" and "df > 0"
  shows "idf (ComputeIDF (BuildVocabulary NewTFIDFEmbedder docs) docs) t = Some NegInf"
  using assms
  by (simp add: ComputeIDF_idf BuildVocabulary_docCount NewTFIDFEmbedder_def log_ratio_def)

text \<open>Otherwise the stored score is the logarithm of N / df.\<close>

lemma idf_below_capacity:
  assumes "\<not> snd (vocab_docs docs Map.empty 0)" and "docs \<noteq> []"
    and "map_of (docFreq docs) t = Some df" and "df > 0"
  shows "idf (ComputeIDF (BuildVocabulary NewTFIDFEmbedder docs) docs) t =
           Some (Finite (ln (real (length docs) / real_of_int df)))"
  using assms
  by (simp add: ComputeIDF_idf BuildVocabulary_docCount NewTFIDFEmbedder_def log_ratio_def)

lemma tokenize_hundred_terms:
  "tokenize hundred_terms = [
      ''aa'', ''ab'', ''ac'', ''ad'', ''ae'', ''af'', ''ag'', ''ah'', ''ai'', ''aj'',
      ''ba'', ''bb'', ''bc'', ''bd'', ''be'', ''bf'', ''bg'', ''bh'', ''bi'', ''bj'',
      ''ca'', ''cb'', ''cc'', ''cd'', ''ce'', ''cf'', ''cg'', ''ch'', ''ci'', ''cj'',
      ''da'', ''db'', ''dc'', ''dd'', ''de'', ''df'', ''dg'', ''dh'', ''di'', ''dj'',
      ''ea'', ''eb'', ''ec'', ''ed'', ''ee'', ''ef'', ''eg'', ''eh'', ''ei'', ''ej'',
      ''fa'', ''fb'', ''fc'', ''fd'', ''fe'', ''ff'', ''fg'', ''fh'', ''fi'', ''fj'',
      ''ga'', ''gb'', ''gc'', ''gd'', ''ge'', ''gf'', ''gg'', ''gh'', ''gi'', ''gj'',
      ''ha'', ''hb'', ''hc'', ''hd'', ''he'', ''hf'', ''hg'', ''hh'', ''hi'', ''hj'',
      ''ia'', ''ib'', ''ic'', ''id'', ''ie'', ''if'', ''ig'', ''ih'', ''ii'', ''ij'',
      ''ja'', ''jb'', ''jc'', ''jd'', ''je'', ''jf'', ''jg'', ''jh'', ''ji'', ''jj'']"
  by code_simp

text \<open>
  C9 holds while the vocabulary stays below one hundred terms
  (\<open>idf_below_capacity\<close>). On a collection with one hundred distinct terms the code
  stores minus infinity, not \<open>ln (N / df)\<close>: for the single document
  \<^const>\<open>hundred_terms\<close>, \<open>N = 1\<close> and \<open>df = 1\<close> for the term \<open>aa\<close>, which
  is in the vocabulary, and the document count the embedder keeps is 0.
\<close>

theorem idf_hundred_terms:
  "vocab (BuildVocabulary NewTFIDFEmbedder [hundred_terms]) ''aa'' = Some 0 \<and>
   docCount (BuildVocabulary NewTFIDFEmbedder [hundred_terms]) = 0 \<and>
   map_of (docFreq [hundred_terms]) ''aa'' = Some 1 \<and>
   idf (ComputeIDF (BuildVocabulary NewTFIDFEmbedder [hundred_terms]) [hundred_terms]) ''aa''
     = Some NegInf \<and>
   idf (ComputeIDF (BuildVocabulary NewTFIDFEmbedder [hundred_terms]) [hundred_terms]) ''aa''
     \<noteq> Some (Finite (ln (real (length [hundred_terms]) / 1)))"
proof -
  have r: "snd (vocab_docs [hundred_terms] Map.empty 0)"
    unfolding vocab_docs.simps tokenize_hundred_terms by code_simp
  have v: "vocab (BuildVocabulary NewTFIDFEmbedder [hundred_terms]) ''aa'' = Some 0"
    unfolding BuildVocabulary_def NewTFIDFEmbedder_def TFIDFEmbedder.simps vocab_docs.simps
      tokenize_hundred_terms
    by code_simp
  have c: "docCount (BuildVocabulary NewTFIDFEmbedder [hundred_terms]) = 0"
    using r by (simp add: BuildVocabulary_docCount NewTFIDFEmbedder_def)
  have f: "map_of (docFreq [hundred_terms]) ''aa'' = Some 1"
    unfolding docFreq_def fold_simps id_o o_id tokenize_hundred_terms by code_simp
  have i: "idf (ComputeIDF (BuildVocabulary NewTFIDFEmbedder [hundred_terms]) [hundred_terms])
             ''aa'' = Some NegInf"
    by (rule idf_after_full_vocabulary[OF r f]) simp
  have n: "idf (ComputeIDF (BuildVocabulary NewTFIDFEmbedder [hundred_terms]) [hundred_terms])
             ''aa'' \<noteq> Some (Finite (ln (real (length [hundred_terms]) / 1)))"
    unfolding i by simp
  from v c f i n show ?thesis by (intro conjI)
qed

section \<open>Properties of cosine similarity\<close>















section \<open>Properties of hybrid search\<close>














section \<open>Properties of the file walker\<close>

lemma walkEntries_no_skip: "snd (walkEntries fn path dirs s) \<noteq> Some SkipDir"
proof (induction dirs arbitrary: s)
  case Nil
  then show ?case by simp
next
  case (Cons d dirs)
  obtain name1 d1 where d: "d = (name1, d1)" by (cases d)
  obtain s1 r where w: "walkDir fn (path @ ''/'' @ name1) name1 d1 s = (s1, r)"
    by (cases "walkDir fn (path @ ''/'' @ name1) name1 d1 s")
  show ?case
  proof (cases r)
    case None
    with Cons.IH[of s1] d w show ?thesis by simp
  next
    case (Some x)
    with d w show ?thesis by (cases x) simp_all
  qed
qed

lemma visit_file_no_skip:
  "snd (visit matcher sum256 repoPath path (Some (name, FileNode r)) None s) \<noteq> Some SkipDir"
  by (auto simp: visit_def split: sum.splits)

lemma walkDir_visit_no_skip:
  "snd (walkDir (visit matcher sum256 repoPath) path name node s) \<noteq> Some SkipDir"
proof (cases node)
  case (FileNode r)
  then show ?thesis using visit_file_no_skip[of matcher sum256 repoPath path name r s] by simp
next
  case (DirNode dirs)
  then show ?thesis
    using walkEntries_no_skip[of "visit matcher sum256 repoPath" path dirs s]
    by (simp add: visit_def)
next
  case (BrokenDir e)
  then show ?thesis by (simp add: visit_def)
qed

text \<open>The walk of a listing in two parts, when no entry of the first part ends the loop.\<close>

lemma walkEntries_append:
  assumes "\<And>n c p s. (n, c) \<in> set xs \<Longrightarrow> snd (walkDir fn p n c s) \<noteq> Some SkipDir"
  shows "walkEntries fn path (xs @ ys) s =
           (case walkEntries fn path xs s of
              (s1, None) \<Rightarrow> walkEntries fn path ys s1
            | (s1, Some r) \<Rightarrow> (s1, Some r))"
  using assms
proof (induction xs arbitrary: s)
  case Nil
  then show ?case by simp
next
  case (Cons d xs)
  obtain name1 d1 where d: "d = (name1, d1)" by (cases d)
  obtain s1 r where w: "walkDir fn (path @ ''/'' @ name1) name1 d1 s = (s1, r)"
    by (cases "walkDir fn (path @ ''/'' @ name1) name1 d1 s")
  have ns: "r \<noteq> Some SkipDir"
    using Cons.prems[of name1 d1 "path @ ''/'' @ name1" s] d w by simp
  have IH: "walkEntries fn path (xs @ ys) s1 =
           (case walkEntries fn path xs s1 of
              (s2, None) \<Rightarrow> walkEntries fn path ys s2
            | (s2, Some r) \<Rightarrow> (s2, Some r))"
    by (rule Cons.IH) (use Cons.prems in auto)
  show ?case
  proof (cases r)
    case None
    with d w IH show ?thesis by simp
  next
    case (Some x)
    with ns obtain e where "x = Other e" by (cases x) auto
    with Some d w show ?thesis by simp
  qed
qed

lemma HasPrefix_append: "HasPrefix (p @ s) p"
  by (induction p) simp_all

lemma filepath_Rel_child: "filepath_Rel repoPath (repoPath @ ''/'' @ name) = Inr name"
proof -
  have "repoPath @ ''/'' @ name \<noteq> repoPath" by simp
  moreover have "HasPrefix (repoPath @ ''/'' @ name) (repoPath @ ''/'')"
    using HasPrefix_append[of "repoPath @ ''/''" name] by simp
  ultimately show ?thesis by (simp add: filepath_Rel_def)
qed

lemma filepath_Rel_child_Cons:
  "filepath_Rel repoPath (repoPath @ CHR ''/'' # name) = Inr name"
  using filepath_Rel_child[of repoPath name] by simp

lemma splitPath_dot: "splitPath ''.'' = [''.'']"
  by (simp add: splitPath_def)

lemma walkDir_unreadable_file:
  assumes "isSupportedFile name" "\<not> matcher (splitPath name) False"
  shows "walkDir (visit matcher sum256 repoPath) (repoPath @ ''/'' @ name) name
           (FileNode (Inl e)) s = (s, Some (Other e))"
  using assms by (simp add: visit_def filepath_Rel_child_Cons)

lemma WalkRepo_listed_root:
  assumes "rname \<noteq> ''.git''" "\<not> matcher [''.''] True"
  shows "WalkRepo matcher sum256 (Inr (rname, DirNode dirs)) repoPath =
           (case walkEntries (visit matcher sum256 repoPath) repoPath dirs [] of
              (s1, Some (Other err)) \<Rightarrow> (s1, Some err)
            | (s1, _) \<Rightarrow> (s1, None))"
proof -
  have "\<not> shouldSkipDir rname repoPath repoPath matcher"
    using assms by (simp add: shouldSkipDir_def filepath_Rel_def splitPath_dot)
  then have "visit matcher sum256 repoPath repoPath (Some (rname, DirNode dirs)) None [] = ([], None)"
    by (simp add: visit_def)
  then show ?thesis by (simp add: WalkRepo_def WalkDir_def)
qed

text \<open>
  C6 (errors of the walk), as the code has it. The callback returns the error of
  \<^verbatim>\<open>os.ReadFile\<close>, and \<^verbatim>\<open>filepath.WalkDir\<close> ends the walk with it.
  When the root is inaccessible, \<^const>\<open>WalkRepo\<close> returns the error of
  \<^verbatim>\<open>Lstat\<close> and no entry. When the root is a directory that is not skipped, the
  walk of the entries listed before a file meets no error, and that file is supported, not
  ignored and cannot be read, \<^const>\<open>WalkRepo\<close> returns the entries collected before
  the file together with the read error, whatever is listed after the file.
\<close>

theorem WalkRepo_read_error:
  "WalkRepo matcher sum256 (Inl e0) repoPath = ([], Some e0) \<and>
   (rname \<noteq> ''.git'' \<and> \<not> matcher [''.''] True \<and>
    isSupportedFile name \<and> \<not> matcher (splitPath name) False \<and>
    WalkRepo matcher sum256 (Inr (rname, DirNode before)) repoPath = (entries, None)
    \<longrightarrow> WalkRepo matcher sum256
          (Inr (rname, DirNode (before @ (name, FileNode (Inl e)) # after))) repoPath
        = (entries, Some e))"
proof (intro conjI impI)
  show "WalkRepo matcher sum256 (Inl e0) repoPath = ([], Some e0)"
    by (simp add: WalkRepo_def WalkDir_def visit_def)
next
  let ?fn = "visit matcher sum256 repoPath"
  assume h: "rname \<noteq> ''.git'' \<and> \<not> matcher [''.''] True \<and>
    isSupportedFile name \<and> \<not> matcher (splitPath name) False \<and>
    WalkRepo matcher sum256 (Inr (rname, DirNode before)) repoPath = (entries, None)"
  then have r: "rname \<noteq> ''.git''" "\<not> matcher [''.''] True"
    and f: "isSupportedFile name" "\<not> matcher (splitPath name) False"
    and b: "WalkRepo matcher sum256 (Inr (rname, DirNode before)) repoPath = (entries, None)"
    by simp_all
  obtain s1 r1 where w: "walkEntries ?fn repoPath before [] = (s1, r1)"
    by (cases "walkEntries ?fn repoPath before []")
  have "r1 \<noteq> Some SkipDir"
    using walkEntries_no_skip[of ?fn repoPath before "[]"] w by simp
  with b w have w1: "walkEntries ?fn repoPath before [] = (entries, None)"
    unfolding WalkRepo_listed_root[of rname matcher, OF r]
    by (cases r1) (auto split: walkerr.splits)
  have "walkEntries ?fn repoPath (before @ (name, FileNode (Inl e)) # after) [] =
          walkEntries ?fn repoPath ((name, FileNode (Inl e)) # after) entries"
    using walkEntries_append[of before ?fn repoPath "(name, FileNode (Inl e)) # after" "[]"]
          walkDir_visit_no_skip[of matcher sum256 repoPath]
    by (simp add: w1)
  also have "\<dots> = (entries, Some (Other e))"
    using walkDir_unreadable_file[of name matcher sum256 repoPath e entries, OF f] by simp
  finally show "WalkRepo matcher sum256
          (Inr (rname, DirNode (before @ (name, FileNode (Inl e)) # after))) repoPath
        = (entries, Some e)"
    unfolding WalkRepo_listed_root[of rname matcher, OF r] by simp
qed

text \<open>
  The repository with the unreadable \<open>b.go\<close>: the walk of \<open>a.go\<close> alone returns its
  entry without error, and the walk of the three files returns that entry and the error.
\<close>

theorem WalkRepo_read_error_witness:
  "isSupportedFile ''b.go'' \<and> splitPath ''b.go'' = [''b.go''] \<and>
   map RelPath (fst (WalkRepo no_ignore (\<lambda>content. ''sum'')
      (Inr (''repo'', DirNode [(''a.go'', FileNode (Inr ''package a''))])) ''/src/repo''))
     = [''a.go''] \<and>
   snd (WalkRepo no_ignore (\<lambda>content. ''sum'')
      (Inr (''repo'', DirNode [(''a.go'', FileNode (Inr ''package a''))])) ''/src/repo'') = None \<and>
   map RelPath (fst (WalkRepo no_ignore (\<lambda>content. ''sum'') unreadable_repo ''/src/repo''))
     = [''a.go''] \<and>
   snd (WalkRepo no_ignore (\<lambda>content. ''sum'') unreadable_repo ''/src/repo'')
     = Some (Error ''permission denied'')"
proof -
  define es where "es = fst (WalkRepo no_ignore (\<lambda>content. ''sum'')
      (Inr (''repo'', DirNode [(''a.go'', FileNode (Inr ''package a''))])) ''/src/repo'')"
  have s: "isSupportedFile ''b.go''" by code_simp
  have p: "splitPath ''b.go'' = [''b.go'']" by code_simp
  have m: "map RelPath es = [''a.go'']" unfolding es_def by code_simp
  have n: "snd (WalkRepo no_ignore (\<lambda>content. ''sum'')
      (Inr (''repo'', DirNode [(''a.go'', FileNode (Inr ''package a''))])) ''/src/repo'') = None"
    by code_simp
  have b: "WalkRepo no_ignore (\<lambda>content. ''sum'')
      (Inr (''repo'', DirNode [(''a.go'', FileNode (Inr ''package a''))])) ''/src/repo'' = (es, None)"
    using n by (simp add: es_def prod_eq_iff)
  have "WalkRepo no_ignore (\<lambda>content. ''sum'')
          (Inr (''repo'', DirNode ([(''a.go'', FileNode (Inr ''package a''))] @
             (''b.go'', FileNode (Inl (Error ''permission denied''))) #
             [(''c.go'', FileNode (Inr ''package c''))]))) ''/src/repo''
        = (es, Some (Error ''permission denied''))"
    using WalkRepo_read_error[of no_ignore "\<lambda>content. ''sum''" _ "''/src/repo''" "''repo''"
            "''b.go''" "[(''a.go'', FileNode (Inr ''package a''))]" es
            "Error ''permission denied''" "[(''c.go'', FileNode (Inr ''package c''))]"]
          s b
    by (simp add: no_ignore_def)
  then have "WalkRepo no_ignore (\<lambda>content. ''sum'') unreadable_repo ''/src/repo''
        = (es, Some (Error ''permission denied''))"
    by (simp add: unreadable_repo_def)
  with s p m n show ?thesis by (simp add: es_def)
qed

text \<open>
  The root is accessible and \<open>b.go\<close> cannot be read: the walk returns an error, and
  \<open>c.go\<close> is not among the entries.
\<close>

theorem WalkRepo_read_error_counterexample:
  "snd (WalkRepo no_ignore (\<lambda>content. ''sum'') unreadable_repo ''/src/repo'')
     = Some (Error ''permission denied'') \<and>
   map RelPath (fst (WalkRepo no_ignore (\<lambda>content. ''sum'') unreadable_repo ''/src/repo''))
     = [''a.go'']"
  by code_simp

end
